theory Spec2Isabelle
  imports Main "HOL-Library.Word" "HOL-Library.Multiset"
begin

section \<open>Bottom-up BFS of the Totem hybrid engine (totem\_bfs\_stepwise\_hybrid.cu)\<close>

text \<open>
  The development embeds \<^verbatim>\<open>src/alg/totem_bfs_stepwise_hybrid.cu\<close>. Every function of
  that file is a HOL function of the same name. The headers \<^verbatim>\<open>totem_alg.h\<close> and
  \<^verbatim>\<open>totem_engine.cuh\<close> are not part of the sources; what the file needs of them
  (types, bitmap operations, macros, engine queries) is introduced below, each with a
  note saying where it comes from.

  Conventions of the embedding:
  \<^item> vertex ids, edge ids and partition ids are natural numbers;
  \<^item> \<^verbatim>\<open>cost_t\<close> is a machine word of some width \<open>'w\<close>, so \<open>level + 1\<close> wraps as in C;
  \<^item> arrays indexed by a vertex or an edge are lists; arrays of \<^verbatim>\<open>MAX_PARTITION_COUNT\<close>
    slots indexed by a partition id are functions from partition ids;
  \<^item> a fatal stop of the program (\<^verbatim>\<open>assert\<close>) is the value \<open>Inl\<close> of a sum type;
  \<^item> undefined behaviour of the C source (reading through a null pointer, indexing
    beyond an array) is left unspecified: the model reads \<open>undefined\<close> or \<open>xs ! i\<close>
    there, and theorems carry the conditions on the state that exclude it.
\<close>

subsection \<open>Types of the absent headers\<close>

type_synonym vid_t = nat
type_synonym eid_t = nat
type_synonym 'w cost_t = "'w word"

text \<open>
  Modelled from the spec: the encoded vertex id. \<^verbatim>\<open>GET_PARTITION_ID\<close> and
  \<^verbatim>\<open>GET_VERTEX_ID\<close> are macros of the absent header; the data model says that an edge
  entry encodes a destination vertex id and the id of the partition owning it. An encoded
  id is the pair of both.
\<close>

type_synonym pvid_t = "nat \<times> vid_t"

definition GET_PARTITION_ID :: "pvid_t \<Rightarrow> nat" where
  "GET_PARTITION_ID e = fst e"

definition GET_VERTEX_ID :: "pvid_t \<Rightarrow> vid_t" where
  "GET_VERTEX_ID e = snd e"

datatype error_t = SUCCESS | FAILURE

datatype fatal = Assertion_failed

datatype processor_type_t = PROCESSOR_CPU | PROCESSOR_GPU | PROCESSOR_MAX

text \<open>
  Modelled from the spec: the Bitmap Set (section 4.1), a bit-vector keyed by local vertex
  id with \<open>set\<close> (idempotent), \<open>test\<close> (read-only) and \<open>reset\<close> (bulk clear of a
  range). The bitmap is the set of the indices whose bit is set.
\<close>

type_synonym bitmap_t = "nat set"

definition bitmap_is_set :: "bitmap_t \<Rightarrow> vid_t \<Rightarrow> bool" where
  "bitmap_is_set bm i \<longleftrightarrow> i \<in> bm"

definition bitmap_set_cpu :: "bitmap_t \<Rightarrow> vid_t \<Rightarrow> bitmap_t" where
  "bitmap_set_cpu bm i = insert i bm"

definition bitmap_set_gpu :: "bitmap_t \<Rightarrow> vid_t \<Rightarrow> bitmap_t" where
  "bitmap_set_gpu bm i = insert i bm"

definition bitmap_init_cpu :: "nat \<Rightarrow> bitmap_t" where
  "bitmap_init_cpu len = {}"

definition bitmap_init_gpu :: "nat \<Rightarrow> bitmap_t" where
  "bitmap_init_gpu len = {}"

definition bitmap_reset_cpu :: "bitmap_t \<Rightarrow> nat \<Rightarrow> bitmap_t" where
  "bitmap_reset_cpu bm len = bm - {0..<len}"

definition bitmap_reset_gpu :: "bitmap_t \<Rightarrow> nat \<Rightarrow> bitmap_t" where
  "bitmap_reset_gpu bm len = bm - {0..<len}"

text \<open>The CSR graph: \<open>vertices ! v\<close> is the index of the first edge of \<open>v\<close>.\<close>

record graph_t =
  vertex_count :: nat
  edge_count :: nat
  vertices :: "eid_t list"
  edges :: "pvid_t list"

text \<open>
  A mailbox table of the communication layer: \<open>rmt_nbrs ! index\<close> is the local vertex
  the entry \<open>index\<close> stands for, \<open>pull_values\<close> is the buffer of one bit per entry and
  \<open>pull_values_s\<close> its shadow.
\<close>

record grooves_box_table_t =
  count :: nat
  rmt_nbrs :: "vid_t list"
  pull_values :: bitmap_t
  pull_values_s :: bitmap_t

text \<open>
  Modelled from the spec: the Frontier Tracker (section 4.2). After an update, \<open>current\<close>
  holds exactly the bits that became set in the visited bitmap since the previous update;
  \<open>visited_last\<close> remembers the visited bitmap of that previous update.
\<close>

record frontier_state_t =
  current :: bitmap_t
  visited_last :: bitmap_t

definition frontier_init_cpu :: "nat \<Rightarrow> frontier_state_t" where
  "frontier_init_cpu len = \<lparr>current = {}, visited_last = {}\<rparr>"

definition frontier_init_gpu :: "nat \<Rightarrow> frontier_state_t" where
  "frontier_init_gpu len = \<lparr>current = {}, visited_last = {}\<rparr>"

definition frontier_update_bitmap_cpu :: "frontier_state_t \<Rightarrow> bitmap_t \<Rightarrow> frontier_state_t" where
  "frontier_update_bitmap_cpu fs vis = \<lparr>current = vis - visited_last fs, visited_last = vis\<rparr>"

definition frontier_update_bitmap_gpu :: "frontier_state_t \<Rightarrow> bitmap_t \<Rightarrow> frontier_state_t" where
  "frontier_update_bitmap_gpu fs vis = \<lparr>current = vis - visited_last fs, visited_last = vis\<rparr>"

subsection \<open>The state of the file\<close>

text \<open>
  A slot of \<open>frontier\<close> is a pointer that owns no memory: it is null, or it points to
  the current bitmap of the partition's own frontier tracker, or to the \<open>pull_values\<close>
  buffer of one of the partition's outboxes. \<open>finished\<close> is null or points to the
  engine's finish flag.
\<close>

datatype bitmap_ptr = NULL_bitmap | Frontier_current | Outbox_pull_values nat

datatype flag_ptr = NULL_flag | Engine_finished

record (overloaded) 'w bfs_state_t =
  cost :: "'w cost_t list"
  visited :: "nat \<Rightarrow> bitmap_t"
  frontier :: "nat \<Rightarrow> bitmap_ptr"
  finished :: flag_ptr
  level :: "'w cost_t"
  frontier_state :: frontier_state_t

record (overloaded) 'w partition_t =
  par_id :: nat
  processor_type :: processor_type_t
  subgraph :: graph_t
  par_map :: "vid_t list"
  outbox :: "nat \<Rightarrow> grooves_box_table_t"
  inbox :: "nat \<Rightarrow> grooves_box_table_t"
  algo_state :: "'w bfs_state_t option"

record (overloaded) 'w bfs_global_state_t =
  g_cost :: "'w cost_t list option"
  cost_h :: "'w cost_t list option"
  src :: pvid_t


text \<open>
  The engine's context as this file sees it, together with the file's global \<open>state_g\<close>.
  The engine is not part of the sources. Its queries (\<^verbatim>\<open>engine_superstep()\<close>,
  \<^verbatim>\<open>engine_vertex_count()\<close>, ...) read the field of the same name; the constant
  \<^verbatim>\<open>INF_COST\<close> of the absent header and the number of threads that
  \<^verbatim>\<open>KERNEL_CONFIGURE\<close> launches for a number of work items are fields too, so that
  every theorem holds for each value they may have.
\<close>

record (overloaded) 'w totem_t =
  engine_superstep :: nat
  engine_finished :: bool
  engine_partition_count :: nat
  engine_vertex_count :: nat
  engine_edge_count :: nat
  engine_largest_gpu_partition :: nat
  engine_vertex_id_in_partition :: "vid_t \<Rightarrow> pvid_t"
  kernel_threads :: "nat \<Rightarrow> nat"
  INF_COST :: "'w cost_t"
  state_g :: "'w bfs_global_state_t"

text \<open>
  Modelled from the spec: reporting "not finished" clears the engine's shared finish
  flag, and the finish pointer of every partition points to that flag (section 3: a
  pointer to a shared "finished" flag owned by the engine).
\<close>

definition engine_report_not_finished :: "'w totem_t \<Rightarrow> 'w totem_t" where
  "engine_report_not_finished t = t\<lparr>engine_finished := False\<rparr>"

definition engine_get_finished_ptr :: "nat \<Rightarrow> flag_ptr" where
  "engine_get_finished_ptr pid = Engine_finished"

text \<open>Reading a bitmap pointer and writing through a flag pointer.\<close>

definition bitmap_at :: "'w partition_t \<Rightarrow> 'w bfs_state_t \<Rightarrow> bitmap_ptr \<Rightarrow> bitmap_t" where
  "bitmap_at par state p =
     (case p of
        NULL_bitmap \<Rightarrow> undefined
      | Frontier_current \<Rightarrow> current (frontier_state state)
      | Outbox_pull_values pid \<Rightarrow> pull_values (outbox par pid))"

definition store_flag :: "flag_ptr \<Rightarrow> bool \<Rightarrow> 'w totem_t \<Rightarrow> 'w totem_t" where
  "store_flag p v t =
     (case p of
        NULL_flag \<Rightarrow> undefined
      | Engine_finished \<Rightarrow> t\<lparr>engine_finished := v\<rparr>)"

text \<open>
  A kernel launch runs the thread function once for each thread index of the grid. The
  threads of the two kernels of this file write disjoint cells, except for the store of
  \<open>false\<close> to the finish flag, which every writer agrees on; the launch is modelled as
  the threads running one after the other, and \<open>launch_kernel_schedule\<close> below runs them
  in any other order.
\<close>

definition launch_kernel :: "nat \<Rightarrow> (nat \<Rightarrow> 'm \<Rightarrow> 'm) \<Rightarrow> 'm \<Rightarrow> 'm" where
  "launch_kernel n thread m = fold thread [0..<n] m"

definition launch_kernel_schedule :: "nat list \<Rightarrow> (nat \<Rightarrow> 'm \<Rightarrow> 'm) \<Rightarrow> 'm \<Rightarrow> 'm" where
  "launch_kernel_schedule schedule thread m = fold thread schedule m"

text \<open>Memory utilities of the absent headers, on lists.\<close>

definition totem_malloc :: "nat \<Rightarrow> 'w::len cost_t list" where
  "totem_malloc n = replicate n 0"

definition totem_memset :: "'w cost_t list \<Rightarrow> 'w cost_t \<Rightarrow> nat \<Rightarrow> 'w cost_t list" where
  "totem_memset xs v n = fold (\<lambda>i ys. ys[i := v]) [0..<n] xs"

definition cudaMemcpy :: "'w cost_t list \<Rightarrow> 'w cost_t list \<Rightarrow> nat \<Rightarrow> 'w cost_t list" where
  "cudaMemcpy dst source n = fold (\<lambda>i ys. ys[i := source ! i]) [0..<n] dst"

subsection \<open>check\_special\_cases\<close>

text \<open>
  The result is the return code, the caller's buffer after the call and the value
  stored to \<open>*finished\<close>. A null \<open>cost\<close> is \<open>None\<close>.
\<close>

definition check_special_cases ::
  "vid_t \<Rightarrow> 'w::len cost_t list option \<Rightarrow> 'w totem_t \<Rightarrow> error_t \<times> 'w cost_t list option \<times> bool" where
  "check_special_cases source cost_buf t =
     (if source \<ge> engine_vertex_count t \<or> cost_buf = None then (FAILURE, cost_buf, True)
      else if engine_vertex_count t = 1 then
        (SUCCESS, Some ((the cost_buf)[0 := 0]), True)
      else if engine_edge_count t = 0 then
        (SUCCESS,
         Some ((totem_memset (the cost_buf) (INF_COST t) (engine_vertex_count t))[source := 0]),
         True)
      else (SUCCESS, cost_buf, False))"

subsection \<open>The bottom-up step on the CPU\<close>

text \<open>
  The inner loop of \<open>bfs_bu_step\<close> over the edge indices of one vertex. The second
  component is the local variable \<open>finished\<close>. The first qualifying neighbour ends the
  loop (\<^verbatim>\<open>break\<close>).
\<close>

primrec bfs_bu_step_nbrs ::
  "'w::len partition_t \<Rightarrow> vid_t \<Rightarrow> eid_t list \<Rightarrow> 'w bfs_state_t \<times> bool \<Rightarrow> 'w bfs_state_t \<times> bool" where
  "bfs_bu_step_nbrs par vertex_id [] sf = sf"
| "bfs_bu_step_nbrs par vertex_id (i # rest) sf =
     (let state = fst sf;
          nbr_pid = GET_PARTITION_ID (edges (subgraph par) ! i);
          nbr = GET_VERTEX_ID (edges (subgraph par) ! i)
      in if bitmap_is_set (bitmap_at par state (frontier state nbr_pid)) nbr
         then (state\<lparr>visited := (visited state)
                          (par_id par := bitmap_set_cpu (visited state (par_id par)) vertex_id),
                      cost := (cost state)[vertex_id := level state + 1]\<rparr>,
               False)
         else bfs_bu_step_nbrs par vertex_id rest sf)"

text \<open>The outer loop of \<open>bfs_bu_step\<close> over the local vertices.\<close>

primrec bfs_bu_step_vertices ::
  "'w::len partition_t \<Rightarrow> vid_t list \<Rightarrow> 'w bfs_state_t \<times> bool \<Rightarrow> 'w bfs_state_t \<times> bool" where
  "bfs_bu_step_vertices par [] sf = sf"
| "bfs_bu_step_vertices par (vertex_id # rest) sf =
     bfs_bu_step_vertices par rest
       (if bitmap_is_set (visited (fst sf) (par_id par)) vertex_id then sf
        else bfs_bu_step_nbrs par vertex_id
               [vertices (subgraph par) ! vertex_id ..< vertices (subgraph par) ! (vertex_id + 1)]
               sf)"

definition bfs_bu_step ::
  "'w::len partition_t \<Rightarrow> 'w bfs_state_t \<Rightarrow> 'w totem_t \<Rightarrow> 'w bfs_state_t \<times> 'w totem_t" where
  "bfs_bu_step par state t =
     (let sf = bfs_bu_step_vertices par [0..<vertex_count (subgraph par)] (state, True)
      in (fst sf, if \<not> snd sf then store_flag (finished (fst sf)) False t else t))"

definition bfs_stepwise_cpu ::
  "'w::len partition_t \<Rightarrow> 'w bfs_state_t \<Rightarrow> 'w totem_t \<Rightarrow> 'w bfs_state_t \<times> 'w totem_t" where
  "bfs_stepwise_cpu par state t =
     (let state1 = state\<lparr>frontier_state :=
                     frontier_update_bitmap_cpu (frontier_state state) (visited state (par_id par))\<rparr>;
          state2 = state1\<lparr>frontier := (frontier state1)(par_id par := Frontier_current)\<rparr>
      in bfs_bu_step par state2 t)"

subsection \<open>The bottom-up step on the GPU\<close>

primrec bfs_bu_kernel_nbrs ::
  "'w::len partition_t \<Rightarrow> vid_t \<Rightarrow> eid_t list \<Rightarrow> 'w bfs_state_t \<times> bool \<Rightarrow> 'w bfs_state_t \<times> bool" where
  "bfs_bu_kernel_nbrs par vertex_id [] sf = sf"
| "bfs_bu_kernel_nbrs par vertex_id (i # rest) sf =
     (let state = fst sf;
          nbr_pid = GET_PARTITION_ID (edges (subgraph par) ! i);
          nbr = GET_VERTEX_ID (edges (subgraph par) ! i)
      in if bitmap_is_set (bitmap_at par state (frontier state nbr_pid)) nbr
         then (state\<lparr>visited := (visited state)
                          (par_id par := bitmap_set_gpu (visited state (par_id par)) vertex_id),
                      cost := (cost state)[vertex_id := level state + 1]\<rparr>,
               False)
         else bfs_bu_kernel_nbrs par vertex_id rest sf)"

text \<open>
  One thread of \<open>bfs_bu_kernel\<close>; the first argument is \<^verbatim>\<open>THREAD_GLOBAL_INDEX\<close>. The
  thread works on the device memory the state points to (the cost array, the visited
  bitmap) and on the finish flag.
\<close>

definition bfs_bu_kernel ::
  "nat \<Rightarrow> 'w::len partition_t \<Rightarrow> 'w bfs_state_t \<times> 'w totem_t \<Rightarrow> 'w bfs_state_t \<times> 'w totem_t" where
  "bfs_bu_kernel vertex_id par m =
     (let state = fst m; t = snd m in
      if vertex_id \<ge> vertex_count (subgraph par) then m
      else if bitmap_is_set (visited state (par_id par)) vertex_id then m
      else
        (let sf = bfs_bu_kernel_nbrs par vertex_id
                    [vertices (subgraph par) ! vertex_id ..< vertices (subgraph par) ! (vertex_id + 1)]
                    (state, True)
         in (fst sf, if \<not> snd sf then store_flag (finished (fst sf)) False t else t)))"

definition bfs_stepwise_gpu ::
  "'w::len partition_t \<Rightarrow> 'w bfs_state_t \<Rightarrow> 'w totem_t \<Rightarrow> 'w bfs_state_t \<times> 'w totem_t" where
  "bfs_stepwise_gpu par state t =
     (let state1 = state\<lparr>frontier_state :=
                     frontier_update_bitmap_gpu (frontier_state state) (visited state (par_id par))\<rparr>;
          state2 = state1\<lparr>frontier := (frontier state1)(par_id par := Frontier_current)\<rparr>
      in launch_kernel (kernel_threads t (vertex_count (subgraph par)))
           (\<lambda>vertex_id. bfs_bu_kernel vertex_id par) (state2, t))"

subsection \<open>The step callback\<close>

definition bfs ::
  "'w::len partition_t \<Rightarrow> 'w totem_t \<Rightarrow> fatal + ('w partition_t \<times> 'w totem_t)" where
  "bfs par t =
     (if vertex_count (subgraph par) = 0 then Inr (par, t)
      else if engine_superstep t = 1 then Inr (par, engine_report_not_finished t)
      else
        (let state = the (algo_state par) in
         case processor_type par of
           PROCESSOR_CPU \<Rightarrow>
             (let r = bfs_stepwise_cpu par state t
              in Inr (par\<lparr>algo_state := Some ((fst r)\<lparr>level := level (fst r) + 1\<rparr>)\<rparr>, snd r))
         | PROCESSOR_GPU \<Rightarrow>
             (let r = bfs_stepwise_gpu par state t
              in Inr (par\<lparr>algo_state := Some ((fst r)\<lparr>level := level (fst r) + 1\<rparr>)\<rparr>, snd r))
         | PROCESSOR_MAX \<Rightarrow> Inl Assertion_failed))"


subsection \<open>The gather callback\<close>

text \<open>The loop of \<open>bfs_gather_cpu\<close> over the entries of one inbox.\<close>

primrec bfs_gather_cpu_entries ::
  "'w partition_t \<Rightarrow> 'w bfs_state_t \<Rightarrow> vid_t list \<Rightarrow> grooves_box_table_t \<Rightarrow> grooves_box_table_t" where
  "bfs_gather_cpu_entries par state [] box = box"
| "bfs_gather_cpu_entries par state (index # rest) box =
     bfs_gather_cpu_entries par state rest
       (let vid = rmt_nbrs box ! index
        in if bitmap_is_set (visited state (par_id par)) vid
           then box\<lparr>pull_values := bitmap_set_cpu (pull_values box) index\<rparr>
           else box)"

definition bfs_gather_cpu ::
  "'w partition_t \<Rightarrow> 'w bfs_state_t \<Rightarrow> grooves_box_table_t \<Rightarrow> grooves_box_table_t" where
  "bfs_gather_cpu par state box = bfs_gather_cpu_entries par state [0..<count box] box"

text \<open>One thread of \<open>bfs_gather_gpu\<close>; the first argument is \<^verbatim>\<open>THREAD_GLOBAL_INDEX\<close>.\<close>

definition bfs_gather_gpu ::
  "nat \<Rightarrow> 'w partition_t \<Rightarrow> 'w bfs_state_t \<Rightarrow> grooves_box_table_t \<Rightarrow> grooves_box_table_t" where
  "bfs_gather_gpu index par state box =
     (if index \<ge> count box then box
      else
        (let vid = rmt_nbrs box ! index
         in if bitmap_is_set (visited state (par_id par)) vid
            then box\<lparr>pull_values := bitmap_set_gpu (pull_values box) index\<rparr>
            else box))"

text \<open>The loop of \<open>bfs_gather\<close> over the partition ids.\<close>

primrec bfs_gather_pids ::
  "'w totem_t \<Rightarrow> nat list \<Rightarrow> 'w partition_t \<Rightarrow> fatal + 'w partition_t" where
  "bfs_gather_pids t [] par = Inr par"
| "bfs_gather_pids t (rmt_pid # rest) par =
     (if rmt_pid = par_id par then bfs_gather_pids t rest par
      else if count (inbox par rmt_pid) = 0 then bfs_gather_pids t rest par
      else
        (case processor_type par of
           PROCESSOR_CPU \<Rightarrow>
             bfs_gather_pids t rest
               (par\<lparr>inbox := (inbox par)
                   (rmt_pid := bfs_gather_cpu par (the (algo_state par)) (inbox par rmt_pid))\<rparr>)
         | PROCESSOR_GPU \<Rightarrow>
             bfs_gather_pids t rest
               (par\<lparr>inbox := (inbox par)
                   (rmt_pid :=
                      launch_kernel (kernel_threads t (count (inbox par rmt_pid)))
                        (\<lambda>index. bfs_gather_gpu index par (the (algo_state par)))
                        (inbox par rmt_pid))\<rparr>)
         | PROCESSOR_MAX \<Rightarrow> Inl Assertion_failed))"

definition bfs_gather :: "'w partition_t \<Rightarrow> 'w totem_t \<Rightarrow> fatal + 'w partition_t" where
  "bfs_gather par t = bfs_gather_pids t [0..<engine_partition_count t] par"

subsection \<open>The aggregate callback\<close>

text \<open>The final loop of \<open>bfs_aggregate\<close>, after \<^verbatim>\<open>assert(state_g.cost)\<close>.\<close>

definition bfs_aggregate_copy ::
  "'w partition_t \<Rightarrow> 'w cost_t list \<Rightarrow> 'w totem_t \<Rightarrow> fatal + 'w totem_t" where
  "bfs_aggregate_copy par src_cost t =
     (case g_cost (state_g t) of
        None \<Rightarrow> Inl Assertion_failed
      | Some c \<Rightarrow>
          Inr (t\<lparr>state_g := (state_g t)\<lparr>g_cost :=
                 Some (fold (\<lambda>v ys. ys[par_map par ! v := src_cost ! v])
                         [0..<vertex_count (subgraph par)] c)\<rparr>\<rparr>))"

definition bfs_aggregate :: "'w partition_t \<Rightarrow> 'w totem_t \<Rightarrow> fatal + 'w totem_t" where
  "bfs_aggregate par t =
     (if vertex_count (subgraph par) = 0 then Inr t
      else
        (let state = the (algo_state par) in
         case processor_type par of
           PROCESSOR_CPU \<Rightarrow> bfs_aggregate_copy par (cost state) t
         | PROCESSOR_GPU \<Rightarrow>
             (case cost_h (state_g t) of
                None \<Rightarrow> Inl Assertion_failed
              | Some h \<Rightarrow>
                  (let h' = cudaMemcpy h (cost state) (vertex_count (subgraph par))
                   in bfs_aggregate_copy par h' (t\<lparr>state_g := (state_g t)\<lparr>cost_h := Some h'\<rparr>\<rparr>)))
         | PROCESSOR_MAX \<Rightarrow> Inl Assertion_failed))"

subsection \<open>The init and finalize callbacks\<close>

text \<open>The state as \<^verbatim>\<open>calloc\<close> returns it: every field zero.\<close>

definition calloc_bfs_state :: "'w::len bfs_state_t" where
  "calloc_bfs_state =
     \<lparr>cost = [], visited = (\<lambda>pid. {}), frontier = (\<lambda>pid. NULL_bitmap), finished = NULL_flag,
      level = 0, frontier_state = \<lparr>current = {}, visited_last = {}\<rparr>\<rparr>"

text \<open>The loop over the partition ids, the same in \<open>bfs_init_cpu\<close> and \<open>bfs_init_gpu\<close>.\<close>

primrec bfs_init_cpu_pids :: "nat list \<Rightarrow> 'w partition_t \<Rightarrow> 'w partition_t" where
  "bfs_init_cpu_pids [] par = par"
| "bfs_init_cpu_pids (pid # rest) par =
     bfs_init_cpu_pids rest
       (let state = the (algo_state par);
            par1 = (if pid \<noteq> par_id par \<and> count (outbox par pid) \<noteq> 0
                    then par\<lparr>algo_state :=
                           Some (state\<lparr>frontier := (frontier state)(pid := Outbox_pull_values pid)\<rparr>)\<rparr>
                    else par)
        in if pid \<noteq> par_id par \<and> count (inbox par pid) \<noteq> 0
           then par1\<lparr>inbox := (inbox par1)
                  (pid := (inbox par1 pid)
                     \<lparr>pull_values := bitmap_reset_cpu (pull_values (inbox par1 pid)) (count (inbox par1 pid)),
                      pull_values_s := bitmap_reset_cpu (pull_values_s (inbox par1 pid)) (count (inbox par1 pid))\<rparr>)\<rparr>
           else par1)"

primrec bfs_init_gpu_pids :: "nat list \<Rightarrow> 'w partition_t \<Rightarrow> 'w partition_t" where
  "bfs_init_gpu_pids [] par = par"
| "bfs_init_gpu_pids (pid # rest) par =
     bfs_init_gpu_pids rest
       (let state = the (algo_state par);
            par1 = (if pid \<noteq> par_id par \<and> count (outbox par pid) \<noteq> 0
                    then par\<lparr>algo_state :=
                           Some (state\<lparr>frontier := (frontier state)(pid := Outbox_pull_values pid)\<rparr>)\<rparr>
                    else par)
        in if pid \<noteq> par_id par \<and> count (inbox par pid) \<noteq> 0
           then par1\<lparr>inbox := (inbox par1)
                  (pid := (inbox par1 pid)
                     \<lparr>pull_values := bitmap_reset_gpu (pull_values (inbox par1 pid)) (count (inbox par1 pid)),
                      pull_values_s := bitmap_reset_gpu (pull_values_s (inbox par1 pid)) (count (inbox par1 pid))\<rparr>)\<rparr>
           else par1)"

text \<open>\<open>bfs_init_bu_kernel\<close>: only the thread of index 0 sets the bit.\<close>

definition bfs_init_bu_kernel :: "nat \<Rightarrow> vid_t \<Rightarrow> bitmap_t \<Rightarrow> bitmap_t" where
  "bfs_init_bu_kernel thread_index source vis =
     (if thread_index \<noteq> 0 then vis else bitmap_set_gpu vis source)"

definition set_visited :: "'w partition_t \<Rightarrow> bitmap_t \<Rightarrow> 'w partition_t" where
  "set_visited par vis =
     par\<lparr>algo_state :=
       Some ((the (algo_state par))\<lparr>visited := (visited (the (algo_state par)))(par_id par := vis)\<rparr>)\<rparr>"

definition bfs_init_cpu :: "'w partition_t \<Rightarrow> 'w totem_t \<Rightarrow> 'w partition_t" where
  "bfs_init_cpu par t =
     (let par1 = set_visited par (bitmap_init_cpu (vertex_count (subgraph par)));
          par2 = bfs_init_cpu_pids [0..<engine_partition_count t] par1;
          par3 = (if GET_PARTITION_ID (src (state_g t)) = par_id par2
                  then set_visited par2
                         (bitmap_set_cpu (visited (the (algo_state par2)) (par_id par2))
                            (GET_VERTEX_ID (src (state_g t))))
                  else par2)
      in par3\<lparr>algo_state :=
           Some ((the (algo_state par3))
                   \<lparr>frontier_state := frontier_init_cpu (vertex_count (subgraph par3))\<rparr>)\<rparr>)"

definition bfs_init_gpu :: "'w partition_t \<Rightarrow> 'w totem_t \<Rightarrow> 'w partition_t" where
  "bfs_init_gpu par t =
     (let par1 = set_visited par (bitmap_init_gpu (vertex_count (subgraph par)));
          par2 = bfs_init_gpu_pids [0..<engine_partition_count t] par1;
          par3 = (if GET_PARTITION_ID (src (state_g t)) = par_id par2
                  then set_visited par2
                         (launch_kernel 1
                            (\<lambda>thread_index. bfs_init_bu_kernel thread_index (GET_VERTEX_ID (src (state_g t))))
                            (visited (the (algo_state par2)) (par_id par2)))
                  else par2)
      in par3\<lparr>algo_state :=
           Some ((the (algo_state par3))
                   \<lparr>frontier_state := frontier_init_gpu (vertex_count (subgraph par3))\<rparr>)\<rparr>)"

definition bfs_init_cost :: "'w::len partition_t \<Rightarrow> 'w totem_t \<Rightarrow> 'w partition_t" where
  "bfs_init_cost par t =
     (let state = the (algo_state par);
          state1 = state\<lparr>cost := totem_memset (totem_malloc (vertex_count (subgraph par)))
                                    (INF_COST t) (vertex_count (subgraph par))\<rparr>;
          state2 = (if GET_PARTITION_ID (src (state_g t)) = par_id par
                    then state1\<lparr>cost := (cost state1)[GET_VERTEX_ID (src (state_g t)) := 0]\<rparr>
                    else state1)
      in par\<lparr>algo_state :=
           Some (state2\<lparr>finished := engine_get_finished_ptr (par_id par), level := 0\<rparr>)\<rparr>)"

definition bfs_init :: "'w::len partition_t \<Rightarrow> 'w totem_t \<Rightarrow> fatal + 'w partition_t" where
  "bfs_init par t =
     (if vertex_count (subgraph par) = 0 then Inr par
      else
        (let par1 = par\<lparr>algo_state := Some calloc_bfs_state\<rparr> in
         case processor_type par1 of
           PROCESSOR_CPU \<Rightarrow> Inr (bfs_init_cost (bfs_init_cpu par1 t) t)
         | PROCESSOR_GPU \<Rightarrow> Inr (bfs_init_cost (bfs_init_gpu par1 t) t)
         | PROCESSOR_MAX \<Rightarrow> Inl Assertion_failed))"

definition bfs_finalize :: "'w partition_t \<Rightarrow> fatal + 'w partition_t" where
  "bfs_finalize par =
     (if vertex_count (subgraph par) = 0 then Inr par
      else
        (case processor_type par of
           PROCESSOR_CPU \<Rightarrow> Inr (par\<lparr>algo_state := None\<rparr>)
         | PROCESSOR_GPU \<Rightarrow> Inr (par\<lparr>algo_state := None\<rparr>)
         | PROCESSOR_MAX \<Rightarrow> Inl Assertion_failed))"


subsection \<open>The engine\<close>

text \<open>
  Modelled from the spec: the engine that drives the callbacks (\<^verbatim>\<open>engine_execute\<close> of
  the absent \<^verbatim>\<open>totem_engine\<close>), after sections 2, 4.4, 4.5 and 6. It calls \<open>init\<close> on
  every partition; then, once per superstep, it advances the superstep counter, runs the
  step callback of every partition, runs the gather callback of every partition and lets
  the communication layer move each inbox buffer to the outbox of the partition that
  reads it (pull mode); it repeats until no partition reported "not finished" during a
  superstep; then it calls \<open>aggregate\<close> once and \<open>finalize\<close> once on every partition.
  The partitions are taken in the order of their ids. The loop has fuel: \<open>None\<close> says
  that the fuel ran out before the loop ended.
\<close>

primrec engine_init ::
  "'w::len totem_t \<Rightarrow> 'w partition_t list \<Rightarrow> fatal + 'w partition_t list" where
  "engine_init t [] = Inr []"
| "engine_init t (par # rest) =
     (case bfs_init par t of
        Inl e \<Rightarrow> Inl e
      | Inr par' \<Rightarrow>
          (case engine_init t rest of Inl e \<Rightarrow> Inl e | Inr rest' \<Rightarrow> Inr (par' # rest')))"

primrec engine_compute ::
  "'w::len partition_t list \<Rightarrow> 'w totem_t \<Rightarrow> fatal + ('w partition_t list \<times> 'w totem_t)" where
  "engine_compute [] t = Inr ([], t)"
| "engine_compute (par # rest) t =
     (case bfs par t of
        Inl e \<Rightarrow> Inl e
      | Inr r \<Rightarrow>
          (case engine_compute rest (snd r) of
             Inl e \<Rightarrow> Inl e
           | Inr r' \<Rightarrow> Inr (fst r # fst r', snd r')))"

primrec engine_gather ::
  "'w totem_t \<Rightarrow> 'w partition_t list \<Rightarrow> fatal + 'w partition_t list" where
  "engine_gather t [] = Inr []"
| "engine_gather t (par # rest) =
     (case bfs_gather par t of
        Inl e \<Rightarrow> Inl e
      | Inr par' \<Rightarrow>
          (case engine_gather t rest of Inl e \<Rightarrow> Inl e | Inr rest' \<Rightarrow> Inr (par' # rest')))"

definition grooves_pull :: "'w partition_t list \<Rightarrow> 'w partition_t \<Rightarrow> 'w partition_t" where
  "grooves_pull ps par =
     par\<lparr>outbox := (\<lambda>rmt_pid.
            if rmt_pid < length ps \<and> rmt_pid \<noteq> par_id par
            then (outbox par rmt_pid)\<lparr>pull_values := pull_values (inbox (ps ! rmt_pid) (par_id par))\<rparr>
            else outbox par rmt_pid)\<rparr>"

definition grooves_communicate :: "'w partition_t list \<Rightarrow> 'w partition_t list" where
  "grooves_communicate ps = map (grooves_pull ps) ps"

primrec engine_loop ::
  "nat \<Rightarrow> 'w::len partition_t list \<Rightarrow> 'w totem_t \<Rightarrow>
   (fatal + ('w partition_t list \<times> 'w totem_t)) option" where
  "engine_loop 0 ps t = None"
| "engine_loop (Suc fuel) ps t =
     (let t1 = t\<lparr>engine_superstep := engine_superstep t + 1, engine_finished := True\<rparr> in
      case engine_compute ps t1 of
        Inl e \<Rightarrow> Some (Inl e)
      | Inr r \<Rightarrow>
          (case engine_gather (snd r) (fst r) of
             Inl e \<Rightarrow> Some (Inl e)
           | Inr ps' \<Rightarrow>
               if engine_finished (snd r) then Some (Inr (grooves_communicate ps', snd r))
               else engine_loop fuel (grooves_communicate ps') (snd r)))"

primrec engine_aggregate ::
  "'w partition_t list \<Rightarrow> 'w totem_t \<Rightarrow> fatal + 'w totem_t" where
  "engine_aggregate [] t = Inr t"
| "engine_aggregate (par # rest) t =
     (case bfs_aggregate par t of Inl e \<Rightarrow> Inl e | Inr t' \<Rightarrow> engine_aggregate rest t')"

primrec engine_finalize :: "'w partition_t list \<Rightarrow> fatal + 'w partition_t list" where
  "engine_finalize [] = Inr []"
| "engine_finalize (par # rest) =
     (case bfs_finalize par of
        Inl e \<Rightarrow> Inl e
      | Inr par' \<Rightarrow>
          (case engine_finalize rest of Inl e \<Rightarrow> Inl e | Inr rest' \<Rightarrow> Inr (par' # rest')))"

definition engine_execute ::
  "nat \<Rightarrow> 'w::len partition_t list \<Rightarrow> 'w totem_t \<Rightarrow>
   (fatal + ('w partition_t list \<times> 'w totem_t)) option" where
  "engine_execute fuel ps t =
     (case engine_init t ps of
        Inl e \<Rightarrow> Some (Inl e)
      | Inr ps1 \<Rightarrow>
          (case engine_loop fuel ps1 (t\<lparr>engine_superstep := 0\<rparr>) of
             None \<Rightarrow> None
           | Some (Inl e) \<Rightarrow> Some (Inl e)
           | Some (Inr r) \<Rightarrow>
               (case engine_aggregate (fst r) (snd r) of
                  Inl e \<Rightarrow> Some (Inl e)
                | Inr t' \<Rightarrow>
                    (case engine_finalize (fst r) of
                       Inl e \<Rightarrow> Some (Inl e)
                     | Inr ps' \<Rightarrow> Some (Inr (ps', t'))))))"

text \<open>
  Modelled from the spec: one superstep of the engine, which is the body of the loop of
  \<open>engine_loop\<close> (step phase, gather phase, communication), and the world after \<open>init\<close>
  and the first \<open>n\<close> supersteps of a run.
\<close>

definition engine_round ::
  "'w::len partition_t list \<Rightarrow> 'w totem_t \<Rightarrow> fatal + ('w partition_t list \<times> 'w totem_t)" where
  "engine_round ps t =
     (let t1 = t\<lparr>engine_superstep := engine_superstep t + 1, engine_finished := True\<rparr> in
      case engine_compute ps t1 of
        Inl e \<Rightarrow> Inl e
      | Inr r \<Rightarrow>
          (case engine_gather (snd r) (fst r) of
             Inl e \<Rightarrow> Inl e
           | Inr ps' \<Rightarrow> Inr (grooves_communicate ps', snd r)))"

primrec engine_supersteps ::
  "nat \<Rightarrow> 'w::len partition_t list \<Rightarrow> 'w totem_t \<Rightarrow>
   fatal + ('w partition_t list \<times> 'w totem_t)" where
  "engine_supersteps 0 ps t =
     (case engine_init t ps of
        Inl e \<Rightarrow> Inl e
      | Inr ps1 \<Rightarrow> Inr (ps1, t\<lparr>engine_superstep := 0\<rparr>))"
| "engine_supersteps (Suc n) ps t =
     (case engine_supersteps n ps t of
        Inl e \<Rightarrow> Inl e
      | Inr r \<Rightarrow> engine_round (fst r) (snd r))"

subsection \<open>The entry point\<close>

text \<open>
  \<open>bfs_stepwise_hybrid\<close> on the world of the partitions and the engine context. The
  result is \<open>None\<close> when the fuel of the engine's loop ran out, \<open>Some (Inl e)\<close> when the
  program stopped on an assertion, and otherwise the return code, the caller's buffer
  after the call and the world after the call. During the run \<open>state_g.cost\<close> points to
  the caller's buffer: the buffer after the call is what \<open>state_g.cost\<close> holds when the
  engine returns.
\<close>

definition bfs_stepwise_hybrid ::
  "nat \<Rightarrow> vid_t \<Rightarrow> 'w::len cost_t list option \<Rightarrow> 'w partition_t list \<times> 'w totem_t \<Rightarrow>
   (fatal + (error_t \<times> 'w cost_t list option \<times> ('w partition_t list \<times> 'w totem_t))) option" where
  "bfs_stepwise_hybrid fuel source cost_buf w =
     (let ps = fst w; t = snd w;
          r = check_special_cases source cost_buf t;
          rc = fst r; cost_buf1 = fst (snd r); is_finished = snd (snd r)
      in if is_finished then Some (Inr (rc, cost_buf1, w))
         else
           (let t1 = t\<lparr>state_g := (state_g t)
                        \<lparr>g_cost := cost_buf1, src := engine_vertex_id_in_partition t source\<rparr>\<rparr>;
                t2 = (if engine_largest_gpu_partition t1 \<noteq> 0
                      then t1\<lparr>state_g := (state_g t1)
                             \<lparr>cost_h := Some (totem_malloc (engine_largest_gpu_partition t1))\<rparr>\<rparr>
                      else t1)
            in case engine_execute fuel ps t2 of
                 None \<Rightarrow> None
               | Some (Inl e) \<Rightarrow> Some (Inl e)
               | Some (Inr r') \<Rightarrow>
                   Some (Inr (SUCCESS, g_cost (state_g (snd r')),
                              (fst r', (snd r')\<lparr>state_g := \<lparr>g_cost = None, cost_h = None, src = (0, 0)\<rparr>\<rparr>)))))"


section \<open>Notions used in the statements\<close>

text \<open>
  The test of the inner loops on the edge of index \<open>i\<close>: the bit of the neighbour is
  set in the frontier bitmap of the partition that owns the neighbour.
\<close>

definition nbr_in_frontier :: "'w partition_t \<Rightarrow> 'w bfs_state_t \<Rightarrow> eid_t \<Rightarrow> bool" where
  "nbr_in_frontier par state i \<longleftrightarrow>
     bitmap_is_set
       (bitmap_at par state (frontier state (GET_PARTITION_ID (edges (subgraph par) ! i))))
       (GET_VERTEX_ID (edges (subgraph par) ! i))"

text \<open>Some neighbour of the local vertex \<open>v\<close> passes the test.\<close>

definition has_frontier_nbr :: "'w partition_t \<Rightarrow> 'w bfs_state_t \<Rightarrow> vid_t \<Rightarrow> bool" where
  "has_frontier_nbr par state v \<longleftrightarrow>
     (\<exists>i \<in> set [vertices (subgraph par) ! v ..< vertices (subgraph par) ! (v + 1)].
        nbr_in_frontier par state i)"

text \<open>The vertex \<open>v\<close> is not visited yet and some neighbour of it passes the test.\<close>

definition found :: "'w partition_t \<Rightarrow> 'w bfs_state_t \<Rightarrow> vid_t \<Rightarrow> bool" where
  "found par state v \<longleftrightarrow>
     \<not> bitmap_is_set (visited state (par_id par)) v \<and> has_frontier_nbr par state v"

definition step_found :: "'w partition_t \<Rightarrow> 'w bfs_state_t \<Rightarrow> vid_t set" where
  "step_found par state = {v. v < vertex_count (subgraph par) \<and> found par state v}"

text \<open>
  The state in which the vertices of \<open>Q\<close> have been marked visited and given the cost
  \<open>level + 1\<close>.
\<close>

definition bu_result :: "'w::len partition_t \<Rightarrow> 'w bfs_state_t \<Rightarrow> vid_t set \<Rightarrow> 'w bfs_state_t" where
  "bu_result par state Q =
     state\<lparr>visited := (visited state)(par_id par := visited state (par_id par) \<union> Q),
           cost := map (\<lambda>j. if j \<in> Q then level state + 1 else cost state ! j)
                     [0..<length (cost state)]\<rparr>"

definition step_flag :: "'w partition_t \<Rightarrow> 'w bfs_state_t \<Rightarrow> 'w totem_t \<Rightarrow> 'w totem_t" where
  "step_flag par state t =
     (if step_found par state = {} then t else store_flag (finished state) False t)"

text \<open>
  The state the scan of a superstep starts from: the state after the first two
  statements of \<open>bfs_stepwise_cpu\<close> and \<open>bfs_stepwise_gpu\<close>, in which the partition's own
  frontier slot points to the freshly updated current frontier.
\<close>

definition stepwise_state :: "'w partition_t \<Rightarrow> 'w bfs_state_t \<Rightarrow> 'w bfs_state_t" where
  "stepwise_state par state =
     state\<lparr>frontier_state :=
             frontier_update_bitmap_cpu (frontier_state state) (visited state (par_id par)),
           frontier := (frontier state)(par_id par := Frontier_current)\<rparr>"

text \<open>The adjacency list of the local vertex \<open>v\<close> in the CSR arrays.\<close>

definition nbr_list :: "graph_t \<Rightarrow> vid_t \<Rightarrow> pvid_t list" where
  "nbr_list g v = map ((!) (edges g)) [vertices g ! v ..< vertices g ! (v + 1)]"

text \<open>
  What may happen to a partition between two callbacks of a run: the step callback, the
  gather callback, or an action of the engine, which may change the context and the
  partition's mailboxes but not the state of the algorithm.
\<close>

inductive run ::
  "'w::len partition_t \<times> 'w totem_t \<Rightarrow> 'w partition_t \<times> 'w totem_t \<Rightarrow> bool" where
  run_start: "run c c"
| run_bfs: "run c (par, t) \<Longrightarrow> bfs par t = Inr (par', t') \<Longrightarrow> run c (par', t')"
| run_gather: "run c (par, t) \<Longrightarrow> bfs_gather par t = Inr par' \<Longrightarrow> run c (par', t)"
| run_engine: "run c (par, t) \<Longrightarrow> algo_state par' = algo_state par \<Longrightarrow> par_id par' = par_id par \<Longrightarrow>
     subgraph par' = subgraph par \<Longrightarrow> run c (par', t')"

text \<open>
  What the gather loops do to one inbox: the entries whose local vertex is in the
  visited bitmap \<open>vis\<close> get their bit set.
\<close>

definition gathered :: "bitmap_t \<Rightarrow> grooves_box_table_t \<Rightarrow> grooves_box_table_t" where
  "gathered vis box =
     box\<lparr>pull_values := pull_values box \<union>
            {index. index < count box \<and> bitmap_is_set vis (rmt_nbrs box ! index)}\<rparr>"

text \<open>The partition after the gather over the remote partition ids of \<open>pids\<close>.\<close>

definition gather_result :: "'w partition_t \<Rightarrow> bitmap_t \<Rightarrow> nat set \<Rightarrow> 'w partition_t" where
  "gather_result par vis pids =
     par\<lparr>inbox := (\<lambda>rmt_pid.
            if rmt_pid \<in> pids \<and> rmt_pid \<noteq> par_id par \<and> count (inbox par rmt_pid) \<noteq> 0
            then gathered vis (inbox par rmt_pid)
            else inbox par rmt_pid)\<rparr>"

text \<open>
  What \<open>init\<close> does: it clears the two buffers of an inbox, points the frontier slots
  to the outboxes, and builds the state of the partition.
\<close>

definition box_reset :: "grooves_box_table_t \<Rightarrow> grooves_box_table_t" where
  "box_reset box =
     box\<lparr>pull_values := pull_values box - {0..<count box},
         pull_values_s := pull_values_s box - {0..<count box}\<rparr>"

definition init_frontier :: "'w partition_t \<Rightarrow> nat set \<Rightarrow> (nat \<Rightarrow> bitmap_ptr) \<Rightarrow> nat \<Rightarrow> bitmap_ptr" where
  "init_frontier par A f =
     (\<lambda>p. if p \<in> A \<and> p \<noteq> par_id par \<and> count (outbox par p) \<noteq> 0
          then Outbox_pull_values p else f p)"

definition init_inbox :: "'w partition_t \<Rightarrow> nat set \<Rightarrow> nat \<Rightarrow> grooves_box_table_t" where
  "init_inbox par A =
     (\<lambda>p. if p \<in> A \<and> p \<noteq> par_id par \<and> count (inbox par p) \<noteq> 0
          then box_reset (inbox par p) else inbox par p)"

definition init_state :: "'w::len totem_t \<Rightarrow> 'w partition_t \<Rightarrow> 'w bfs_state_t" where
  "init_state t par =
     \<lparr>cost = (if GET_PARTITION_ID (src (state_g t)) = par_id par
              then (replicate (vertex_count (subgraph par)) (INF_COST t))
                     [GET_VERTEX_ID (src (state_g t)) := 0]
              else replicate (vertex_count (subgraph par)) (INF_COST t)),
      visited = (\<lambda>p. {})
        (par_id par := (if GET_PARTITION_ID (src (state_g t)) = par_id par
                        then {GET_VERTEX_ID (src (state_g t))} else {})),
      frontier = init_frontier par {0..<engine_partition_count t} (\<lambda>p. NULL_bitmap),
      finished = Engine_finished, level = 0,
      frontier_state = \<lparr>current = {}, visited_last = {}\<rparr>\<rparr>"

subsection \<open>The graph of a partitioned world\<close>

text \<open>
  A vertex of the world is a pair of a partition id and a local vertex id; \<open>gid\<close> is
  its global id, through the partition's map. An edge of a partition names its end either
  as a local vertex of the same partition or as an index into the table of remote
  neighbours that the owner of the end keeps for this partition (the inbox of the owner);
  \<open>target\<close> is the vertex the edge ends at, and \<open>pedge ps a b\<close> says that an edge
  leads from \<open>a\<close> to \<open>b\<close>.
\<close>

definition is_vertex :: "'w partition_t list \<Rightarrow> pvid_t \<Rightarrow> bool" where
  "is_vertex ps a \<longleftrightarrow> fst a < length ps \<and> snd a < vertex_count (subgraph (ps ! fst a))"

definition gid :: "'w partition_t list \<Rightarrow> pvid_t \<Rightarrow> vid_t" where
  "gid ps a = par_map (ps ! fst a) ! snd a"

definition target :: "'w partition_t list \<Rightarrow> nat \<Rightarrow> pvid_t \<Rightarrow> pvid_t" where
  "target ps p e =
     (if GET_PARTITION_ID e = p then (p, GET_VERTEX_ID e)
      else (GET_PARTITION_ID e, rmt_nbrs (inbox (ps ! GET_PARTITION_ID e) p) ! GET_VERTEX_ID e))"

definition pedge :: "'w partition_t list \<Rightarrow> pvid_t \<Rightarrow> pvid_t \<Rightarrow> bool" where
  "pedge ps a b \<longleftrightarrow>
     is_vertex ps a \<and> b \<in> target ps (fst a) ` set (nbr_list (subgraph (ps ! fst a)) (snd a))"

text \<open>The edges read backwards: the bottom-up scan of a vertex follows its own edges.\<close>

definition redge :: "'w partition_t list \<Rightarrow> pvid_t \<Rightarrow> pvid_t \<Rightarrow> bool" where
  "redge ps a b \<longleftrightarrow> pedge ps b a"

text \<open>
  \<open>walk E a n b\<close>: \<open>n\<close> edges of \<open>E\<close> lead from \<open>a\<close> to \<open>b\<close>. A vertex is reachable
  when some walk leads to it, and \<open>d\<close> is the number of edges of a shortest path when a
  walk of \<open>d\<close> edges leads to it and none of fewer edges does.
\<close>

inductive walk :: "('a \<Rightarrow> 'a \<Rightarrow> bool) \<Rightarrow> 'a \<Rightarrow> nat \<Rightarrow> 'a \<Rightarrow> bool" for E :: "'a \<Rightarrow> 'a \<Rightarrow> bool" where
  walk_0: "walk E a 0 a"
| walk_Suc: "walk E a n b \<Longrightarrow> E b c \<Longrightarrow> walk E a (Suc n) c"

definition reachable :: "('a \<Rightarrow> 'a \<Rightarrow> bool) \<Rightarrow> 'a \<Rightarrow> 'a \<Rightarrow> bool" where
  "reachable E a b \<longleftrightarrow> (\<exists>n. walk E a n b)"

definition shortest :: "('a \<Rightarrow> 'a \<Rightarrow> bool) \<Rightarrow> 'a \<Rightarrow> 'a \<Rightarrow> nat \<Rightarrow> bool" where
  "shortest E a b d \<longleftrightarrow> walk E a d b \<and> (\<forall>n. walk E a n b \<longrightarrow> d \<le> n)"

text \<open>
  The vertices within \<open>k\<close> backward edges of \<open>s\<close>, the vertices within fewer than \<open>k\<close>,
  and the least number of backward edges from \<open>s\<close> to a vertex.
\<close>

definition near :: "'w partition_t list \<Rightarrow> pvid_t \<Rightarrow> nat \<Rightarrow> pvid_t set" where
  "near ps s k = {a. \<exists>n \<le> k. walk (redge ps) s n a}"

definition near_before :: "'w partition_t list \<Rightarrow> pvid_t \<Rightarrow> nat \<Rightarrow> pvid_t set" where
  "near_before ps s k = (case k of 0 \<Rightarrow> {} | Suc j \<Rightarrow> near ps s j)"

definition sdist :: "'w partition_t list \<Rightarrow> pvid_t \<Rightarrow> pvid_t \<Rightarrow> nat" where
  "sdist ps s a = (LEAST n. walk (redge ps) s n a)"

text \<open>
  What the file takes for granted about the world the engine hands to it. An edge ends
  at a vertex that exists: a local end is below the vertex count, a remote end is an
  entry of the owner's inbox for this partition, and this partition has an outbox for
  the owner. A partition has its own id, runs on the CPU or on the GPU, maps each local
  vertex to a global id, has CSR arrays that cover its vertices, gets from a kernel
  launch at least one thread per item, fits the GPU staging buffer if it is on the GPU,
  and every entry of its inboxes is one of its vertices. The partitions' maps together
  name each global id once, \<^verbatim>\<open>engine_vertex_id_in_partition\<close> inverts them, and the
  engine's edge count is the number of edges.
\<close>

definition wf_edge :: "'w partition_t list \<Rightarrow> nat \<Rightarrow> pvid_t \<Rightarrow> bool" where
  "wf_edge ps p e \<longleftrightarrow>
     GET_PARTITION_ID e < length ps \<and>
     (if GET_PARTITION_ID e = p then GET_VERTEX_ID e < vertex_count (subgraph (ps ! p))
      else GET_VERTEX_ID e < count (inbox (ps ! GET_PARTITION_ID e) p) \<and>
           count (outbox (ps ! p) (GET_PARTITION_ID e)) \<noteq> 0)"

definition wf_partition :: "'w totem_t \<Rightarrow> 'w partition_t list \<Rightarrow> nat \<Rightarrow> bool" where
  "wf_partition t ps p \<longleftrightarrow>
     par_id (ps ! p) = p \<and>
     processor_type (ps ! p) \<noteq> PROCESSOR_MAX \<and>
     length (par_map (ps ! p)) = vertex_count (subgraph (ps ! p)) \<and>
     length (vertices (subgraph (ps ! p))) = Suc (vertex_count (subgraph (ps ! p))) \<and>
     vertex_count (subgraph (ps ! p))
       \<le> kernel_threads t (vertex_count (subgraph (ps ! p))) \<and>
     (processor_type (ps ! p) = PROCESSOR_GPU \<longrightarrow>
        vertex_count (subgraph (ps ! p)) \<le> engine_largest_gpu_partition t) \<and>
     (\<forall>v \<in> set [0..<vertex_count (subgraph (ps ! p))].
        vertices (subgraph (ps ! p)) ! Suc v \<le> length (edges (subgraph (ps ! p))) \<and>
        (\<forall>e \<in> set (nbr_list (subgraph (ps ! p)) v). wf_edge ps p e)) \<and>
     (\<forall>q \<in> set [0..<length ps].
        count (inbox (ps ! p) q) \<le> kernel_threads t (count (inbox (ps ! p) q)) \<and>
        (q \<noteq> p \<longrightarrow>
           count (inbox (ps ! p) q) \<le> length (rmt_nbrs (inbox (ps ! p) q)) \<and>
           (\<forall>x \<in> set [0..<count (inbox (ps ! p) q)].
              rmt_nbrs (inbox (ps ! p) q) ! x < vertex_count (subgraph (ps ! p)))))"

definition all_edges :: "'w partition_t list \<Rightarrow> pvid_t list" where
  "all_edges ps =
     concat (map (\<lambda>par. concat (map (nbr_list (subgraph par))
                                  [0..<vertex_count (subgraph par)])) ps)"

definition wf_world :: "'w partition_t list \<Rightarrow> 'w totem_t \<Rightarrow> bool" where
  "wf_world ps t \<longleftrightarrow>
     engine_partition_count t = length ps \<and>
     (\<forall>p \<in> set [0..<length ps]. wf_partition t ps p) \<and>
     distinct (concat (map par_map ps)) \<and>
     set (concat (map par_map ps)) = {0..<engine_vertex_count t} \<and>
     (\<forall>g \<in> set [0..<engine_vertex_count t].
        is_vertex ps (engine_vertex_id_in_partition t g) \<and>
        gid ps (engine_vertex_id_in_partition t g) = g) \<and>
     engine_edge_count t = length (all_edges ps)"

text \<open>The graph is undirected: every edge has an edge back.\<close>

definition undirected :: "'w partition_t list \<Rightarrow> bool" where
  "undirected ps \<longleftrightarrow>
     (\<forall>p \<in> set [0..<length ps]. \<forall>v \<in> set [0..<vertex_count (subgraph (ps ! p))].
        \<forall>e \<in> set (nbr_list (subgraph (ps ! p)) v). pedge ps (target ps p e) (p, v))"

subsection \<open>The callbacks and the levels of the search\<close>

text \<open>
  What the callbacks do to one partition, in closed form: \<open>init\<close>, \<open>gather\<close>, the step of
  a superstep from the second on, whether that step finds no vertex, \<open>finalize\<close>, and the
  copy of \<open>aggregate\<close> into the output buffer.
\<close>

definition init_par :: "'w::len totem_t \<Rightarrow> 'w partition_t \<Rightarrow> 'w partition_t" where
  "init_par t par =
     (if vertex_count (subgraph par) = 0 then par
      else par\<lparr>inbox := init_inbox par {0..<engine_partition_count t},
               algo_state := Some (init_state t par)\<rparr>)"

definition gather_par :: "'w totem_t \<Rightarrow> 'w partition_t \<Rightarrow> 'w partition_t" where
  "gather_par t par =
     gather_result par (visited (the (algo_state par)) (par_id par))
       {0..<engine_partition_count t}"

definition step_par :: "'w::len partition_t \<Rightarrow> 'w partition_t" where
  "step_par par =
     (if vertex_count (subgraph par) = 0 then par
      else par\<lparr>algo_state := Some
             ((bu_result par (stepwise_state par (the (algo_state par)))
                 (step_found par (stepwise_state par (the (algo_state par)))))
              \<lparr>level := level (the (algo_state par)) + 1\<rparr>)\<rparr>)"

definition quiet_par :: "'w::len partition_t \<Rightarrow> bool" where
  "quiet_par par \<longleftrightarrow>
     vertex_count (subgraph par) = 0 \<or>
     step_found par (stepwise_state par (the (algo_state par))) = {}"

definition finalize_par :: "'w partition_t \<Rightarrow> 'w partition_t" where
  "finalize_par par =
     (if vertex_count (subgraph par) = 0 then par else par\<lparr>algo_state := None\<rparr>)"

definition agg_par :: "'w partition_t \<Rightarrow> 'w cost_t list \<Rightarrow> 'w cost_t list" where
  "agg_par par c =
     fold (\<lambda>v ys. ys[par_map par ! v := cost (the (algo_state par)) ! v])
       [0..<vertex_count (subgraph par)] c"

text \<open>
  The partition \<open>par\<close> of a run is the partition \<open>par0\<close> of the world it started from,
  up to the state of the algorithm and the bits of the mailboxes.
\<close>

definition same_shape :: "'w partition_t \<Rightarrow> 'w partition_t \<Rightarrow> bool" where
  "same_shape par0 par \<longleftrightarrow>
     par_id par = par_id par0 \<and> processor_type par = processor_type par0 \<and>
     subgraph par = subgraph par0 \<and> par_map par = par_map par0 \<and>
     (\<forall>q. count (inbox par q) = count (inbox par0 q) \<and>
          rmt_nbrs (inbox par q) = rmt_nbrs (inbox par0 q) \<and>
          count (outbox par q) = count (outbox par0 q))"

text \<open>
  The state of partition \<open>p\<close> at level \<open>k\<close> of the search from \<open>s\<close>: the visited
  vertices are those within \<open>k\<close> edges, their costs are their distances, the other costs
  are \<open>infc\<close>, and the frontier tracker remembers the level before.
\<close>

definition state_ok ::
  "'w::len partition_t list \<Rightarrow> 'w word \<Rightarrow> pvid_t \<Rightarrow> nat \<Rightarrow> nat \<Rightarrow> 'w bfs_state_t \<Rightarrow> bool" where
  "state_ok ps0 infc s k p st \<longleftrightarrow>
     level st = of_nat k \<and>
     visited st p = {v. (p, v) \<in> near ps0 s k} \<and>
     cost st = map (\<lambda>v. if (p, v) \<in> near ps0 s k then of_nat (sdist ps0 s (p, v)) else infc)
                 [0..<vertex_count (subgraph (ps0 ! p))] \<and>
     visited_last (frontier_state st) = {v. (p, v) \<in> near_before ps0 s k} \<and>
     (\<forall>q < length ps0. q \<noteq> p \<and> count (outbox (ps0 ! p) q) \<noteq> 0 \<longrightarrow>
        frontier st q = Outbox_pull_values q) \<and>
     finished st = Engine_finished"

text \<open>
  The bits of the inboxes of partition \<open>p\<close>, and of its outboxes, are those of the
  vertices of \<open>S\<close>.
\<close>

definition inbox_ok :: "'w partition_t list \<Rightarrow> pvid_t set \<Rightarrow> nat \<Rightarrow> 'w partition_t \<Rightarrow> bool" where
  "inbox_ok ps0 S p par \<longleftrightarrow>
     (\<forall>q < length ps0. q \<noteq> p \<longrightarrow>
        (\<forall>x < count (inbox (ps0 ! p) q).
           x \<in> pull_values (inbox par q) \<longleftrightarrow> (p, rmt_nbrs (inbox (ps0 ! p) q) ! x) \<in> S))"

definition outbox_ok :: "'w partition_t list \<Rightarrow> pvid_t set \<Rightarrow> nat \<Rightarrow> 'w partition_t \<Rightarrow> bool" where
  "outbox_ok ps0 S p par \<longleftrightarrow>
     (\<forall>q < length ps0. q \<noteq> p \<longrightarrow>
        (\<forall>x < count (inbox (ps0 ! q) p).
           x \<in> pull_values (outbox par q) \<longleftrightarrow> (q, rmt_nbrs (inbox (ps0 ! q) p) ! x) \<in> S))"

definition world_inv ::
  "'w::len partition_t list \<Rightarrow> 'w word \<Rightarrow> pvid_t \<Rightarrow> nat \<Rightarrow> 'w partition_t list \<Rightarrow> bool" where
  "world_inv ps0 infc s k ps \<longleftrightarrow>
     length ps = length ps0 \<and>
     (\<forall>p < length ps0.
        same_shape (ps0 ! p) (ps ! p) \<and>
        (vertex_count (subgraph (ps0 ! p)) \<noteq> 0 \<longrightarrow>
           (\<exists>st. algo_state (ps ! p) = Some st \<and> state_ok ps0 infc s k p st)))"

definition inboxes_ok :: "'w partition_t list \<Rightarrow> pvid_t set \<Rightarrow> 'w partition_t list \<Rightarrow> bool" where
  "inboxes_ok ps0 S ps \<longleftrightarrow> (\<forall>p < length ps0. inbox_ok ps0 S p (ps ! p))"

definition outboxes_ok :: "'w partition_t list \<Rightarrow> pvid_t set \<Rightarrow> 'w partition_t list \<Rightarrow> bool" where
  "outboxes_ok ps0 S ps \<longleftrightarrow> (\<forall>p < length ps0. outbox_ok ps0 S p (ps ! p))"

text \<open>What a call returned: the return code and the caller's buffer.\<close>

definition returned ::
  "(fatal + (error_t \<times> 'w::len cost_t list option \<times> ('w partition_t list \<times> 'w totem_t))) option \<Rightarrow>
   (error_t \<times> 'w cost_t list option) option" where
  "returned r = (case r of Some (Inr x) \<Rightarrow> Some (fst x, fst (snd x)) | _ \<Rightarrow> None)"


text \<open>What a world holds for a vertex: its visited bit, its cost, the level of a partition.\<close>

definition visited_at :: "'w partition_t list \<Rightarrow> pvid_t \<Rightarrow> bool" where
  "visited_at ps a \<longleftrightarrow>
     bitmap_is_set (visited (the (algo_state (ps ! fst a))) (fst a)) (snd a)"

definition cost_at :: "'w partition_t list \<Rightarrow> pvid_t \<Rightarrow> 'w cost_t" where
  "cost_at ps a = cost (the (algo_state (ps ! fst a))) ! snd a"

definition level_at :: "'w partition_t list \<Rightarrow> nat \<Rightarrow> 'w cost_t" where
  "level_at ps p = level (the (algo_state (ps ! p)))"

section \<open>An example world\<close>

text \<open>
  Four vertices, the path 0 - 1 - 2 and the isolated vertex 3, on two partitions: a CPU
  partition owns the vertices 0 and 1, a GPU partition owns 2 and 3. The costs are
  16-bit words.
\<close>

definition ex_box :: "nat \<Rightarrow> vid_t list \<Rightarrow> grooves_box_table_t" where
  "ex_box n nbrs = \<lparr>count = n, rmt_nbrs = nbrs, pull_values = {}, pull_values_s = {}\<rparr>"

definition ex_par0 :: "16 partition_t" where
  "ex_par0 =
     \<lparr>par_id = 0, processor_type = PROCESSOR_CPU,
      subgraph = \<lparr>vertex_count = 2, edge_count = 3, vertices = [0, 1, 3],
                  edges = [(0, 1), (0, 0), (1, 0)]\<rparr>,
      par_map = [0, 1],
      outbox = (\<lambda>pid. if pid = 1 then ex_box 1 [0] else ex_box 0 []),
      inbox = (\<lambda>pid. if pid = 1 then ex_box 1 [1] else ex_box 0 []),
      algo_state = None\<rparr>"

definition ex_par1 :: "16 partition_t" where
  "ex_par1 =
     \<lparr>par_id = 1, processor_type = PROCESSOR_GPU,
      subgraph = \<lparr>vertex_count = 2, edge_count = 1, vertices = [0, 1, 1],
                  edges = [(0, 0)]\<rparr>,
      par_map = [2, 3],
      outbox = (\<lambda>pid. if pid = 0 then ex_box 1 [1] else ex_box 0 []),
      inbox = (\<lambda>pid. if pid = 0 then ex_box 1 [0] else ex_box 0 []),
      algo_state = None\<rparr>"

definition ex_totem :: "16 totem_t" where
  "ex_totem =
     \<lparr>engine_superstep = 0, engine_finished = True, engine_partition_count = 2,
      engine_vertex_count = 4, engine_edge_count = 4, engine_largest_gpu_partition = 2,
      engine_vertex_id_in_partition = (\<lambda>v. (v div 2, v mod 2)),
      kernel_threads = (\<lambda>n. (n + 3) div 4 * 4),
      INF_COST = - 1,
      state_g = \<lparr>g_cost = None, cost_h = None, src = (0, 0)\<rparr>\<rparr>"

text \<open>The state of the CPU partition after \<open>init\<close> with the source 0.\<close>

definition ex_state0 :: "16 bfs_state_t" where
  "ex_state0 =
     \<lparr>cost = [0, - 1], visited = (\<lambda>pid. if pid = 0 then {0} else {}),
      frontier = (\<lambda>pid. if pid = 1 then Outbox_pull_values 1 else NULL_bitmap),
      finished = Engine_finished, level = 0,
      frontier_state = \<lparr>current = {}, visited_last = {}\<rparr>\<rparr>"


text \<open>
  The CPU partition with its state after \<open>init\<close>, and with its state after the
  superstep that visits vertex 1; the context in superstep 1 and in superstep 2; the CPU
  partition with the bit of the remote neighbour of vertex 1 set in its outbox, so that
  both neighbours of vertex 1 qualify, and the same with the edges of vertex 1 in the
  other order; a partition without vertices; the context of a graph without edges.
\<close>

definition ex_state1 :: "16 bfs_state_t" where
  "ex_state1 =
     \<lparr>cost = [0, 1], visited = (\<lambda>pid. if pid = 0 then {0, 1} else {}),
      frontier = (\<lambda>pid. if pid = 0 then Frontier_current
                        else if pid = 1 then Outbox_pull_values 1 else NULL_bitmap),
      finished = Engine_finished, level = 1,
      frontier_state = \<lparr>current = {0}, visited_last = {0}\<rparr>\<rparr>"

definition ex_par0_init :: "16 partition_t" where
  "ex_par0_init = ex_par0\<lparr>algo_state := Some ex_state0\<rparr>"

definition ex_par0_next :: "16 partition_t" where
  "ex_par0_next = ex_par0\<lparr>algo_state := Some ex_state1\<rparr>"

definition ex_totem2 :: "16 totem_t" where
  "ex_totem2 = ex_totem\<lparr>engine_superstep := 2\<rparr>"





definition ex_par_empty :: "16 partition_t" where
  "ex_par_empty =
     ex_par0\<lparr>subgraph := \<lparr>vertex_count = 0, edge_count = 0, vertices = [0], edges = []\<rparr>\<rparr>"

definition ex_totem1 :: "16 totem_t" where
  "ex_totem1 = ex_totem\<lparr>engine_superstep := 1\<rparr>"

definition ex_totem_no_edges :: "16 totem_t" where
  "ex_totem_no_edges = ex_totem\<lparr>engine_edge_count := 0\<rparr>"


text \<open>
  The undirected path 0 - 1 - 2 - 3 - 4 on one CPU partition, with costs of two bits: the
  last vertex is four edges away from the first, and a cost holds 0 to 3.
\<close>

definition ex_par_path :: "2 partition_t" where
  "ex_par_path =
     \<lparr>par_id = 0, processor_type = PROCESSOR_CPU,
      subgraph = \<lparr>vertex_count = 5, edge_count = 8, vertices = [0, 1, 3, 5, 7, 8],
                  edges = [(0, 1), (0, 0), (0, 2), (0, 1), (0, 3), (0, 2), (0, 4), (0, 3)]\<rparr>,
      par_map = [0, 1, 2, 3, 4],
      outbox = (\<lambda>pid. ex_box 0 []),
      inbox = (\<lambda>pid. ex_box 0 []),
      algo_state = None\<rparr>"

definition ex_totem_path :: "2 totem_t" where
  "ex_totem_path =
     \<lparr>engine_superstep = 0, engine_finished = True, engine_partition_count = 1,
      engine_vertex_count = 5, engine_edge_count = 8, engine_largest_gpu_partition = 0,
      engine_vertex_id_in_partition = (\<lambda>v. (0, v)),
      kernel_threads = (\<lambda>n. (n + 3) div 4 * 4),
      INF_COST = - 1,
      state_g = \<lparr>g_cost = None, cost_h = None, src = (0, 0)\<rparr>\<rparr>"


section \<open>Properties\<close>

subsection \<open>The bottom-up step in closed form\<close>

lemma bu_result_empty [simp]: "bu_result par state {} = state"
  by (simp add: bu_result_def map_nth)

lemma bu_result_single:
  "bu_result par state {v} =
     state\<lparr>visited := (visited state)(par_id par := insert v (visited state (par_id par))),
           cost := (cost state)[v := level state + 1]\<rparr>"
proof -
  have "map (\<lambda>j. if j \<in> {v} then level state + 1 else cost state ! j) [0..<length (cost state)]
        = (cost state)[v := level state + 1]"
    by (rule nth_equalityI) (auto simp: nth_list_update)
  then show ?thesis by (simp add: bu_result_def)
qed

lemma bu_result_fields [simp]:
  "frontier (bu_result par state Q) = frontier state"
  "frontier_state (bu_result par state Q) = frontier_state state"
  "finished (bu_result par state Q) = finished state"
  "level (bu_result par state Q) = level state"
  "visited (bu_result par state Q) (par_id par) = visited state (par_id par) \<union> Q"
  "length (cost (bu_result par state Q)) = length (cost state)"
  by (simp_all add: bu_result_def)

lemma bu_result_compose:
  "bu_result par (bu_result par state A) B = bu_result par state (A \<union> B)"
proof -
  have "map (\<lambda>j. if j \<in> B then level state + 1
                  else map (\<lambda>j. if j \<in> A then level state + 1 else cost state ! j)
                         [0..<length (cost state)] ! j)
          [0..<length (cost state)]
        = map (\<lambda>j. if j \<in> A \<union> B then level state + 1 else cost state ! j)
            [0..<length (cost state)]"
    by (rule nth_equalityI) auto
  then show ?thesis
    by (simp add: bu_result_def Un_assoc)
qed

lemma bitmap_at_bu_result [simp]:
  "bitmap_at par (bu_result par state Q) p = bitmap_at par state p"
  by (simp add: bitmap_at_def split: bitmap_ptr.splits)

lemma nbr_in_frontier_bu_result [simp]:
  "nbr_in_frontier par (bu_result par state Q) i = nbr_in_frontier par state i"
  by (simp add: nbr_in_frontier_def)

lemma found_bu_result:
  "found par (bu_result par state Q) v \<longleftrightarrow> found par state v \<and> v \<notin> Q"
  by (auto simp: found_def has_frontier_nbr_def bitmap_is_set_def)

lemma bfs_bu_step_nbrs_eq:
  "bfs_bu_step_nbrs par v is (state, f) =
     (if \<exists>i \<in> set is. nbr_in_frontier par state i then (bu_result par state {v}, False)
      else (state, f))"
  by (induction "is")
     (simp_all add: Let_def nbr_in_frontier_def bu_result_single bitmap_set_cpu_def)

lemma bfs_bu_kernel_nbrs_eq:
  "bfs_bu_kernel_nbrs par v is (state, f) =
     (if \<exists>i \<in> set is. nbr_in_frontier par state i then (bu_result par state {v}, False)
      else (state, f))"
  by (induction "is")
     (simp_all add: Let_def nbr_in_frontier_def bu_result_single bitmap_set_gpu_def)

lemma bfs_bu_step_vertex:
  "(if bitmap_is_set (visited state (par_id par)) v then (state, f)
    else bfs_bu_step_nbrs par v
           [vertices (subgraph par) ! v ..< vertices (subgraph par) ! (v + 1)] (state, f)) =
   (bu_result par state (if found par state v then {v} else {}), f \<and> \<not> found par state v)"
  by (simp add: bfs_bu_step_nbrs_eq found_def has_frontier_nbr_def)

lemma bfs_bu_step_vertices_eq:
  "bfs_bu_step_vertices par vs (state, f) =
     (bu_result par state {v \<in> set vs. found par state v},
      f \<and> \<not> (\<exists>v \<in> set vs. found par state v))"
proof (induction vs arbitrary: state f)
  case Nil
  show ?case by simp
next
  case (Cons v vs)
  let ?A = "if found par state v then {v} else {}"
  have sets: "?A \<union> {u \<in> set vs. found par state u \<and> u \<notin> ?A} = {u \<in> set (v # vs). found par state u}"
    by auto
  have flag: "(\<exists>u \<in> set vs. found par state u \<and> u \<notin> ?A) \<or> found par state v
                \<longleftrightarrow> (\<exists>u \<in> set (v # vs). found par state u)"
    by auto
  have "bfs_bu_step_vertices par (v # vs) (state, f) =
        bfs_bu_step_vertices par vs (bu_result par state ?A, f \<and> \<not> found par state v)"
    using bfs_bu_step_vertex[of state par v f] by simp
  also have "\<dots> = (bu_result par state (?A \<union> {u \<in> set vs. found par state u \<and> u \<notin> ?A}),
                   (f \<and> \<not> found par state v) \<and> \<not> (\<exists>u \<in> set vs. found par state u \<and> u \<notin> ?A))"
    by (simp only: Cons.IH found_bu_result bu_result_compose)
  finally show ?case
    using flag by (simp only: sets) blast
qed

lemma store_flag_idem [simp]:
  "store_flag p v (store_flag p v t) = store_flag p v t"
  by (cases p) (simp_all add: store_flag_def)

lemma bfs_bu_step_eq:
  "bfs_bu_step par state t = (bu_result par state (step_found par state), step_flag par state t)"
proof -
  have "{v \<in> set [0..<vertex_count (subgraph par)]. found par state v} = step_found par state"
    by (auto simp: step_found_def)
  moreover have "(\<exists>v \<in> set [0..<vertex_count (subgraph par)]. found par state v)
                 \<longleftrightarrow> step_found par state \<noteq> {}"
    by (auto simp: step_found_def)
  ultimately show ?thesis
    by (simp add: bfs_bu_step_def bfs_bu_step_vertices_eq step_flag_def)
qed

lemma bfs_bu_kernel_eq:
  "bfs_bu_kernel v par (state, t) =
     (if v < vertex_count (subgraph par) \<and> found par state v
      then (bu_result par state {v}, store_flag (finished state) False t)
      else (state, t))"
  by (auto simp: bfs_bu_kernel_def bfs_bu_kernel_nbrs_eq found_def has_frontier_nbr_def Let_def)

lemma fold_bfs_bu_kernel:
  "fold (\<lambda>v. bfs_bu_kernel v par) schedule (state, t) =
     (bu_result par state (set schedule \<inter> step_found par state),
      if set schedule \<inter> step_found par state = {} then t
      else store_flag (finished state) False t)"
proof (induction schedule arbitrary: state t)
  case Nil
  show ?case by simp
next
  case (Cons v vs)
  show ?case
  proof (cases "v \<in> step_found par state")
    case True
    have found': "step_found par (bu_result par state {v}) = step_found par state - {v}"
      by (auto simp: step_found_def found_bu_result)
    have sets: "{v} \<union> set vs \<inter> (step_found par state - {v}) = set (v # vs) \<inter> step_found par state"
      using True by auto
    have ne: "set (v # vs) \<inter> step_found par state \<noteq> {}"
      using True by auto
    from True have "fold (\<lambda>v. bfs_bu_kernel v par) (v # vs) (state, t) =
        fold (\<lambda>v. bfs_bu_kernel v par) vs (bu_result par state {v}, store_flag (finished state) False t)"
      by (simp add: bfs_bu_kernel_eq step_found_def)
    also have "\<dots> = (bu_result par state ({v} \<union> set vs \<inter> (step_found par state - {v})),
                     store_flag (finished state) False t)"
      by (simp add: Cons.IH found' bu_result_compose)
    finally show ?thesis
      using ne by (simp only: sets if_False)
  next
    case False
    then have sets: "set (v # vs) \<inter> step_found par state = set vs \<inter> step_found par state"
      by auto
    from False have "bfs_bu_kernel v par (state, t) = (state, t)"
      by (auto simp: bfs_bu_kernel_eq step_found_def)
    then have "fold (\<lambda>v. bfs_bu_kernel v par) (v # vs) (state, t) =
        fold (\<lambda>v. bfs_bu_kernel v par) vs (state, t)"
      by simp
    then show ?thesis
      by (simp only: Cons.IH sets)
  qed
qed

lemma kernel_schedule_eq_step:
  assumes "{0..<vertex_count (subgraph par)} \<subseteq> set schedule"
  shows "launch_kernel_schedule schedule (\<lambda>v. bfs_bu_kernel v par) (state, t) = bfs_bu_step par state t"
proof -
  from assms have "set schedule \<inter> step_found par state = step_found par state"
    by (auto simp: step_found_def)
  then show ?thesis
    by (simp add: launch_kernel_schedule_def fold_bfs_bu_kernel bfs_bu_step_eq step_flag_def)
qed

lemma stepwise_gpu_eq_cpu:
  assumes "vertex_count (subgraph par) \<le> kernel_threads t (vertex_count (subgraph par))"
  shows "bfs_stepwise_gpu par state t = bfs_stepwise_cpu par state t"
proof -
  have "{0..<vertex_count (subgraph par)}
        \<subseteq> set [0..<kernel_threads t (vertex_count (subgraph par))]"
    using assms by auto
  from kernel_schedule_eq_step[OF this] show ?thesis
    by (simp add: bfs_stepwise_gpu_def bfs_stepwise_cpu_def launch_kernel_def
          launch_kernel_schedule_def frontier_update_bitmap_gpu_def frontier_update_bitmap_cpu_def
          Let_def)
qed


subsection \<open>Memory utilities\<close>

lemma totem_memset_replicate: "length xs = n \<Longrightarrow> totem_memset xs v n = replicate n v"
  unfolding totem_memset_def
proof -
  have "\<And>k. k \<le> length xs \<Longrightarrow> fold (\<lambda>i ys. ys[i := v]) [0..<k] xs = replicate k v @ drop k xs"
  proof -
    fix k show "k \<le> length xs \<Longrightarrow> fold (\<lambda>i ys. ys[i := v]) [0..<k] xs = replicate k v @ drop k xs"
    proof (induction k)
      case 0 then show ?case by simp
    next
      case (Suc k)
      then have "k < length xs" by simp
      with Suc show ?case
        by (simp add: list_update_append replicate_append_same  upd_conv_take_nth_drop Cons_nth_drop_Suc)
    qed
  qed
  from this[of n] show "length xs = n \<Longrightarrow> fold (\<lambda>i ys. ys[i := v]) [0..<n] xs = replicate n v" by simp
qed

subsection \<open>The step callback in closed form\<close>

lemma stepwise_cpu_eq:
  "bfs_stepwise_cpu par state t =
     (bu_result par (stepwise_state par state) (step_found par (stepwise_state par state)),
      step_flag par (stepwise_state par state) t)"
  by (simp add: bfs_stepwise_cpu_def stepwise_state_def bfs_bu_step_eq Let_def)

lemma stepwise_state_fields [simp]:
  "visited (stepwise_state par state) = visited state"
  "cost (stepwise_state par state) = cost state"
  "level (stepwise_state par state) = level state"
  "finished (stepwise_state par state) = finished state"
  by (simp_all add: stepwise_state_def)

lemma cost_bu_result_nth:
  "v < length (cost state) \<Longrightarrow>
     cost (bu_result par state Q) ! v = (if v \<in> Q then level state + 1 else cost state ! v)"
  by (simp add: bu_result_def)

lemma bfs_eq:
  assumes "vertex_count (subgraph par) \<noteq> 0" "engine_superstep t \<noteq> 1"
    and "processor_type par \<noteq> PROCESSOR_MAX" and "algo_state par = Some state"
    and "vertex_count (subgraph par) \<le> kernel_threads t (vertex_count (subgraph par))"
  shows "bfs par t =
     Inr (par\<lparr>algo_state := Some ((bu_result par (stepwise_state par state)
                   (step_found par (stepwise_state par state)))\<lparr>level := level state + 1\<rparr>)\<rparr>,
          step_flag par (stepwise_state par state) t)"
  using assms
  by (cases "processor_type par")
     (simp_all add: bfs_def stepwise_gpu_eq_cpu stepwise_cpu_eq Let_def)


lemma bfs_bu_step_nbrs_set:
  "set is' = set is \<Longrightarrow> bfs_bu_step_nbrs par v is' sf = bfs_bu_step_nbrs par v is sf"
  by (cases sf) (simp add: bfs_bu_step_nbrs_eq)

lemma has_frontier_nbr_nbr_list:
  "has_frontier_nbr par state v \<longleftrightarrow>
     (\<exists>e \<in> set (nbr_list (subgraph par) v).
        bitmap_is_set (bitmap_at par state (frontier state (GET_PARTITION_ID e))) (GET_VERTEX_ID e))"
  by (simp add: has_frontier_nbr_def nbr_in_frontier_def nbr_list_def)





subsection \<open>The gather callback in closed form\<close>

lemma pull_values_update_cong:
  "A = B \<Longrightarrow> box\<lparr>pull_values := A\<rparr> = box\<lparr>pull_values := B\<rparr>"
  by simp

lemma bfs_gather_cpu_entries_eq:
  "bfs_gather_cpu_entries par state idxs box =
     box\<lparr>pull_values := pull_values box \<union>
            {index \<in> set idxs. bitmap_is_set (visited state (par_id par)) (rmt_nbrs box ! index)}\<rparr>"
proof (induction idxs arbitrary: box)
  case Nil
  show ?case by simp
next
  case (Cons i idxs)
  show ?case
  proof (cases "bitmap_is_set (visited state (par_id par)) (rmt_nbrs box ! i)")
    case True
    then have "bfs_gather_cpu_entries par state (i # idxs) box =
               box\<lparr>pull_values := insert i (pull_values box) \<union>
                 {index \<in> set idxs. bitmap_is_set (visited state (par_id par)) (rmt_nbrs box ! index)}\<rparr>"
      by (simp add: Cons.IH bitmap_set_cpu_def)
    also have "\<dots> = box\<lparr>pull_values := pull_values box \<union>
                 {index \<in> set (i # idxs). bitmap_is_set (visited state (par_id par)) (rmt_nbrs box ! index)}\<rparr>"
      using True by (intro pull_values_update_cong) auto
    finally show ?thesis .
  next
    case False
    then have "bfs_gather_cpu_entries par state (i # idxs) box =
               box\<lparr>pull_values := pull_values box \<union>
                 {index \<in> set idxs. bitmap_is_set (visited state (par_id par)) (rmt_nbrs box ! index)}\<rparr>"
      by (simp add: Cons.IH)
    also have "\<dots> = box\<lparr>pull_values := pull_values box \<union>
                 {index \<in> set (i # idxs). bitmap_is_set (visited state (par_id par)) (rmt_nbrs box ! index)}\<rparr>"
      using False by (intro pull_values_update_cong) auto
    finally show ?thesis .
  qed
qed

lemma bfs_gather_cpu_eq:
  "bfs_gather_cpu par state box = gathered (visited state (par_id par)) box"
  unfolding bfs_gather_cpu_def bfs_gather_cpu_entries_eq gathered_def
  by (intro pull_values_update_cong) auto

lemma fold_bfs_gather_gpu:
  "fold (\<lambda>index. bfs_gather_gpu index par state) schedule box =
     box\<lparr>pull_values := pull_values box \<union>
            {index \<in> set schedule. index < count box \<and>
               bitmap_is_set (visited state (par_id par)) (rmt_nbrs box ! index)}\<rparr>"
proof (induction schedule arbitrary: box)
  case Nil
  show ?case by simp
next
  case (Cons i idxs)
  let ?P = "\<lambda>index. index < count box \<and>
               bitmap_is_set (visited state (par_id par)) (rmt_nbrs box ! index)"
  show ?case
  proof (cases "?P i")
    case True
    then have "fold (\<lambda>index. bfs_gather_gpu index par state) (i # idxs) box =
               box\<lparr>pull_values := insert i (pull_values box) \<union> {index \<in> set idxs. ?P index}\<rparr>"
      by (simp add: Cons.IH bitmap_set_gpu_def bfs_gather_gpu_def)
    also have "\<dots> = box\<lparr>pull_values := pull_values box \<union> {index \<in> set (i # idxs). ?P index}\<rparr>"
      using True by (intro pull_values_update_cong) auto
    finally show ?thesis .
  next
    case False
    then have "bfs_gather_gpu i par state box = box"
      by (auto simp: bfs_gather_gpu_def)
    then have "fold (\<lambda>index. bfs_gather_gpu index par state) (i # idxs) box =
               box\<lparr>pull_values := pull_values box \<union> {index \<in> set idxs. ?P index}\<rparr>"
      by (simp add: Cons.IH)
    also have "\<dots> = box\<lparr>pull_values := pull_values box \<union> {index \<in> set (i # idxs). ?P index}\<rparr>"
      using False by (intro pull_values_update_cong) auto
    finally show ?thesis .
  qed
qed

lemma launch_bfs_gather_gpu_eq:
  assumes "count box \<le> n"
  shows "launch_kernel n (\<lambda>index. bfs_gather_gpu index par state) box =
           gathered (visited state (par_id par)) box"
  unfolding launch_kernel_def fold_bfs_gather_gpu gathered_def
  using assms by (intro pull_values_update_cong) auto

lemma gathered_fields [simp]:
  "count (gathered vis box) = count box"
  "rmt_nbrs (gathered vis box) = rmt_nbrs box"
  "pull_values_s (gathered vis box) = pull_values_s box"
  by (simp_all add: gathered_def)

lemma gathered_idem [simp]: "gathered vis (gathered vis box) = gathered vis box"
  by (simp add: gathered_def)

lemma gather_result_fields [simp]:
  "par_id (gather_result par vis A) = par_id par"
  "processor_type (gather_result par vis A) = processor_type par"
  "algo_state (gather_result par vis A) = algo_state par"
  "subgraph (gather_result par vis A) = subgraph par"
  "outbox (gather_result par vis A) = outbox par"
  "par_map (gather_result par vis A) = par_map par"
  by (simp_all add: gather_result_def)

lemma gather_result_empty [simp]: "gather_result par vis {} = par"
  by (simp add: gather_result_def)

lemma gather_result_insert:
  "gather_result (gather_result par vis A) vis {p} = gather_result par vis (insert p A)"
proof -
  have "inbox (gather_result (gather_result par vis A) vis {p}) =
        inbox (gather_result par vis (insert p A))"
    by (rule ext) (auto simp: gather_result_def)
  then show ?thesis
    by (simp add: gather_result_def)
qed

lemma bfs_gather_one:
  assumes "processor_type par \<noteq> PROCESSOR_MAX" and "algo_state par = Some state"
    and "\<forall>n. n \<le> kernel_threads t n"
  shows "bfs_gather_pids t (rmt_pid # rest) par =
           bfs_gather_pids t rest (gather_result par (visited state (par_id par)) {rmt_pid})"
proof -
  let ?vis = "visited state (par_id par)"
  have upd: "par\<lparr>inbox := (inbox par)(rmt_pid := gathered ?vis (inbox par rmt_pid))\<rparr>
             = gather_result par ?vis {rmt_pid}"
    if "rmt_pid \<noteq> par_id par" "count (inbox par rmt_pid) \<noteq> 0"
  proof -
    have "(inbox par)(rmt_pid := gathered ?vis (inbox par rmt_pid)) =
          inbox (gather_result par ?vis {rmt_pid})"
      using that by (intro ext) (simp add: gather_result_def)
    then show ?thesis by (simp add: gather_result_def)
  qed
  have same: "gather_result par ?vis {rmt_pid} = par"
    if "rmt_pid = par_id par \<or> count (inbox par rmt_pid) = 0"
  proof -
    have "inbox (gather_result par ?vis {rmt_pid}) = inbox par"
      using that by (intro ext) (auto simp: gather_result_def)
    then show ?thesis by (simp add: gather_result_def)
  qed
  show ?thesis
  proof (cases "rmt_pid = par_id par \<or> count (inbox par rmt_pid) = 0")
    case True
    with same show ?thesis by auto
  next
    case False
    with assms upd show ?thesis
      by (cases "processor_type par")
         (simp_all add: bfs_gather_cpu_eq launch_bfs_gather_gpu_eq)
  qed
qed

lemma bfs_gather_pids_eq:
  assumes "processor_type par \<noteq> PROCESSOR_MAX" and "algo_state par = Some state"
    and "\<forall>n. n \<le> kernel_threads t n"
  shows "bfs_gather_pids t pids (gather_result par (visited state (par_id par)) A) =
           Inr (gather_result par (visited state (par_id par)) (A \<union> set pids))"
  using assms
proof (induction pids arbitrary: A)
  case Nil
  show ?case by simp
next
  case (Cons p pids)
  let ?vis = "visited state (par_id par)"
  have "bfs_gather_pids t (p # pids) (gather_result par ?vis A) =
        bfs_gather_pids t pids (gather_result (gather_result par ?vis A) ?vis {p})"
    using Cons.prems bfs_gather_one[of "gather_result par ?vis A" state t p pids] by simp
  also have "\<dots> = bfs_gather_pids t pids (gather_result par ?vis (insert p A))"
    by (simp only: gather_result_insert)
  also have "\<dots> = Inr (gather_result par ?vis (insert p A \<union> set pids))"
    using Cons.prems by (intro Cons.IH)
  finally show ?case by simp
qed

lemma bfs_gather_eq:
  assumes "processor_type par \<noteq> PROCESSOR_MAX" and "algo_state par = Some state"
    and "\<forall>n. n \<le> kernel_threads t n"
  shows "bfs_gather par t =
           Inr (gather_result par (visited state (par_id par)) {0..<engine_partition_count t})"
  using bfs_gather_pids_eq[OF assms, of "[0..<engine_partition_count t]" "{}"]
  by (simp add: bfs_gather_def)

subsection \<open>The effect of one callback\<close>

lemma launch_bfs_bu_kernel:
  "launch_kernel n (\<lambda>v. bfs_bu_kernel v par) (state, t) =
     (bu_result par state ({0..<n} \<inter> step_found par state),
      if {0..<n} \<inter> step_found par state = {} then t else store_flag (finished state) False t)"
  using fold_bfs_bu_kernel[of par "[0..<n]" state t] by (simp add: launch_kernel_def)

lemma bfs_result:
  assumes "bfs par t = Inr (par', t')" and "algo_state par = Some state"
  shows "par' = par \<or>
         (\<exists>Q. Q \<subseteq> step_found par (stepwise_state par state) \<and>
               par' = par\<lparr>algo_state :=
                        Some ((bu_result par (stepwise_state par state) Q)\<lparr>level := level state + 1\<rparr>)\<rparr>)"
proof (cases "vertex_count (subgraph par) = 0 \<or> engine_superstep t = 1")
  case True
  with assms show ?thesis by (auto simp: bfs_def split: if_splits)
next
  case False
  show ?thesis
  proof (cases "processor_type par")
    case PROCESSOR_CPU
    with False assms have
      "par' = par\<lparr>algo_state := Some ((bu_result par (stepwise_state par state)
                 (step_found par (stepwise_state par state)))\<lparr>level := level state + 1\<rparr>)\<rparr>"
      by (auto simp: bfs_def stepwise_cpu_eq)
    then show ?thesis by blast
  next
    case PROCESSOR_GPU
    let ?n = "kernel_threads t (vertex_count (subgraph par))"
    have "bfs_stepwise_gpu par state t =
            launch_kernel ?n (\<lambda>v. bfs_bu_kernel v par) (stepwise_state par state, t)"
      by (simp add: bfs_stepwise_gpu_def stepwise_state_def Let_def
            frontier_update_bitmap_gpu_def frontier_update_bitmap_cpu_def)
    with PROCESSOR_GPU False assms have
      "par' = par\<lparr>algo_state := Some ((bu_result par (stepwise_state par state)
                 ({0..<?n} \<inter> step_found par (stepwise_state par state)))\<lparr>level := level state + 1\<rparr>)\<rparr>"
      by (auto simp: bfs_def launch_bfs_bu_kernel)
    then show ?thesis by blast
  next
    case PROCESSOR_MAX
    with False assms show ?thesis by (auto simp: bfs_def)
  qed
qed

lemma step_found_unvisited:
  "v \<in> step_found par (stepwise_state par state) \<Longrightarrow>
     \<not> bitmap_is_set (visited state (par_id par)) v"
  by (simp add: step_found_def found_def)

text \<open>What one step callback does to the visited bitmap and the costs.\<close>

lemma bfs_step_effect:
  assumes "bfs par t = Inr (par', t')" and "algo_state par = Some state"
  shows "\<exists>state'. algo_state par' = Some state' \<and> par_id par' = par_id par \<and>
           subgraph par' = subgraph par \<and>
           visited state (par_id par) \<subseteq> visited state' (par_id par) \<and>
           length (cost state') = length (cost state) \<and>
           (\<forall>v < length (cost state).
              cost state' ! v =
                (if bitmap_is_set (visited state' (par_id par)) v \<and>
                    \<not> bitmap_is_set (visited state (par_id par)) v
                 then level state + 1 else cost state ! v))"
  using bfs_result[OF assms]
proof
  assume "par' = par"
  with assms(2) show ?thesis by simp
next
  assume "\<exists>Q. Q \<subseteq> step_found par (stepwise_state par state) \<and>
               par' = par\<lparr>algo_state :=
                        Some ((bu_result par (stepwise_state par state) Q)\<lparr>level := level state + 1\<rparr>)\<rparr>"
  then obtain Q where Q: "Q \<subseteq> step_found par (stepwise_state par state)"
    and par': "par' = par\<lparr>algo_state :=
                 Some ((bu_result par (stepwise_state par state) Q)\<lparr>level := level state + 1\<rparr>)\<rparr>"
    by blast
  let ?state' = "(bu_result par (stepwise_state par state) Q)\<lparr>level := level state + 1\<rparr>"
  have new: "bitmap_is_set (visited ?state' (par_id par)) v \<and>
             \<not> bitmap_is_set (visited state (par_id par)) v \<longleftrightarrow> v \<in> Q" for v
    using Q step_found_unvisited[of v par state] by (auto simp: bitmap_is_set_def)
  have "cost ?state' ! v = (if v \<in> Q then level state + 1 else cost state ! v)"
    if "v < length (cost state)" for v
    using that by (simp add: cost_bu_result_nth)
  with new have "\<forall>v < length (cost state).
              cost ?state' ! v =
                (if bitmap_is_set (visited ?state' (par_id par)) v \<and>
                    \<not> bitmap_is_set (visited state (par_id par)) v
                 then level state + 1 else cost state ! v)"
    by simp
  moreover have "visited state (par_id par) \<subseteq> visited ?state' (par_id par)" by simp
  moreover have "length (cost ?state') = length (cost state)" by simp
  ultimately show ?thesis
    unfolding par' by (intro exI[of _ ?state']) simp
qed

lemma bfs_gather_effect:
  assumes "bfs_gather_pids t pids par = Inr par'"
  shows "algo_state par' = algo_state par \<and> par_id par' = par_id par \<and> subgraph par' = subgraph par"
  using assms
proof (induction pids arbitrary: par)
  case Nil
  then show ?case by simp
next
  case (Cons p pids)
  show ?case
  proof (cases "p = par_id par \<or> count (inbox par p) = 0")
    case True
    with Cons.prems have "bfs_gather_pids t pids par = Inr par'" by (auto split: if_splits)
    then show ?thesis by (rule Cons.IH)
  next
    case False
    show ?thesis
    proof (cases "processor_type par")
      case PROCESSOR_CPU
      with False Cons.prems Cons.IH[of "par\<lparr>inbox := (inbox par)
                   (p := bfs_gather_cpu par (the (algo_state par)) (inbox par p))\<rparr>"]
      show ?thesis by simp
    next
      case PROCESSOR_GPU
      with False Cons.prems Cons.IH[of "par\<lparr>inbox := (inbox par)
                   (p := launch_kernel (kernel_threads t (count (inbox par p)))
                        (\<lambda>index. bfs_gather_gpu index par (the (algo_state par)))
                        (inbox par p))\<rparr>"]
      show ?thesis by simp
    next
      case PROCESSOR_MAX
      with False Cons.prems show ?thesis by simp
    qed
  qed
qed


subsection \<open>The init callback in closed form\<close>

lemma box_reset_idem [simp]: "box_reset (box_reset box) = box_reset box"
  by (simp add: box_reset_def)

lemma count_box_reset [simp]: "count (box_reset box) = count box"
  by (simp add: box_reset_def)

lemma init_frontier_insert:
  "(if p \<noteq> par_id par \<and> count (outbox par p) \<noteq> 0
    then (init_frontier par A f)(p := Outbox_pull_values p)
    else init_frontier par A f) = init_frontier par (insert p A) f"
  by (auto simp: init_frontier_def fun_eq_iff)

lemma init_inbox_insert:
  "(if p \<noteq> par_id par \<and> count (inbox par p) \<noteq> 0
    then (init_inbox par A)(p := box_reset (init_inbox par A p))
    else init_inbox par A) = init_inbox par (insert p A)"
  by (auto simp: init_inbox_def fun_eq_iff)

lemma count_init_inbox [simp]: "count (init_inbox par A p) = count (inbox par p)"
  by (simp add: init_inbox_def)

lemma inbox_algo_state_commute:
  "r\<lparr>algo_state := a, inbox := i\<rparr> = r\<lparr>inbox := i, algo_state := a\<rparr>"
  by (cases r) simp

lemma bfs_init_cpu_pids_step:
  fixes par :: "'w::len partition_t"
  shows "bfs_init_cpu_pids (p # pids)
           (par\<lparr>inbox := I, algo_state := Some (state\<lparr>frontier := F\<rparr>)\<rparr>) =
         bfs_init_cpu_pids pids
           (par\<lparr>inbox := (if p \<noteq> par_id par \<and> count (I p) \<noteq> 0
                          then I(p := box_reset (I p)) else I),
                algo_state := Some (state\<lparr>frontier :=
                   (if p \<noteq> par_id par \<and> count (outbox par p) \<noteq> 0
                    then F(p := Outbox_pull_values p) else F)\<rparr>)\<rparr>)"
  by (simp add: Let_def box_reset_def bitmap_reset_cpu_def inbox_algo_state_commute)

lemma bfs_init_gpu_pids_step:
  fixes par :: "'w::len partition_t"
  shows "bfs_init_gpu_pids (p # pids)
           (par\<lparr>inbox := I, algo_state := Some (state\<lparr>frontier := F\<rparr>)\<rparr>) =
         bfs_init_gpu_pids pids
           (par\<lparr>inbox := (if p \<noteq> par_id par \<and> count (I p) \<noteq> 0
                          then I(p := box_reset (I p)) else I),
                algo_state := Some (state\<lparr>frontier :=
                   (if p \<noteq> par_id par \<and> count (outbox par p) \<noteq> 0
                    then F(p := Outbox_pull_values p) else F)\<rparr>)\<rparr>)"
  by (simp add: Let_def box_reset_def bitmap_reset_gpu_def inbox_algo_state_commute)

lemma bfs_init_cpu_pids_eq:
  fixes par :: "'w::len partition_t"
  shows "bfs_init_cpu_pids pids
           (par\<lparr>inbox := init_inbox par A,
                algo_state := Some (state\<lparr>frontier := init_frontier par A f\<rparr>)\<rparr>) =
         par\<lparr>inbox := init_inbox par (A \<union> set pids),
             algo_state := Some (state\<lparr>frontier := init_frontier par (A \<union> set pids) f\<rparr>)\<rparr>"
proof (induction pids arbitrary: A)
  case Nil
  show ?case by simp
next
  case (Cons p pids)
  show ?case
    unfolding bfs_init_cpu_pids_step count_init_inbox init_frontier_insert init_inbox_insert
    by (simp add: Cons.IH)
qed

lemma bfs_init_gpu_pids_eq:
  fixes par :: "'w::len partition_t"
  shows "bfs_init_gpu_pids pids
           (par\<lparr>inbox := init_inbox par A,
                algo_state := Some (state\<lparr>frontier := init_frontier par A f\<rparr>)\<rparr>) =
         par\<lparr>inbox := init_inbox par (A \<union> set pids),
             algo_state := Some (state\<lparr>frontier := init_frontier par (A \<union> set pids) f\<rparr>)\<rparr>"
proof (induction pids arbitrary: A)
  case Nil
  show ?case by simp
next
  case (Cons p pids)
  show ?case
    unfolding bfs_init_gpu_pids_step count_init_inbox init_frontier_insert init_inbox_insert
    by (simp add: Cons.IH)
qed

lemma init_empty [simp]:
  "init_frontier par {} f = f" "init_inbox par {} = inbox par"
  by (simp_all add: init_frontier_def init_inbox_def)

lemma bfs_init_eq:
  fixes par :: "'w::len partition_t"
  assumes "vertex_count (subgraph par) \<noteq> 0" and "processor_type par \<noteq> PROCESSOR_MAX"
  shows "bfs_init par t =
           Inr (par\<lparr>inbox := init_inbox par {0..<engine_partition_count t},
                    algo_state := Some (init_state t par)\<rparr>)"
proof -
  let ?c = "calloc_bfs_state :: 'w bfs_state_t"
  let ?s0 = "?c\<lparr>visited := (visited ?c)(par_id par := {})\<rparr>"
  let ?p0 = "par\<lparr>algo_state := Some ?s0\<rparr>"
  let ?P = "{0..<engine_partition_count t}"
  let ?p2 = "par\<lparr>inbox := init_inbox par ?P,
                 algo_state := Some (?s0\<lparr>frontier := init_frontier par ?P (frontier ?c)\<rparr>)\<rparr>"
  let ?p4 = "par\<lparr>inbox := init_inbox par ?P,
                 algo_state := Some ((init_state t par)\<lparr>cost := [], finished := NULL_flag\<rparr>)\<rparr>"
  have p0: "?p0 = par\<lparr>inbox := init_inbox par {},
                      algo_state := Some (?s0\<lparr>frontier := init_frontier par {} (frontier ?c)\<rparr>)\<rparr>"
    by (simp add: calloc_bfs_state_def)
  have pids_cpu: "bfs_init_cpu_pids [0..<engine_partition_count t] ?p0 = ?p2"
    by (subst p0, subst bfs_init_cpu_pids_eq) simp
  have pids_gpu: "bfs_init_gpu_pids [0..<engine_partition_count t] ?p0 = ?p2"
    by (subst p0, subst bfs_init_gpu_pids_eq) simp
  have ms: "totem_memset (totem_malloc n) v n = replicate n (v :: 'w word)" for n v
    by (simp add: totem_memset_replicate totem_malloc_def)
  have sv_cpu: "set_visited (par\<lparr>algo_state := Some ?c\<rparr>)
                  (bitmap_init_cpu (vertex_count (subgraph par))) = ?p0"
    by (simp add: set_visited_def bitmap_init_cpu_def)
  have sv_gpu: "set_visited (par\<lparr>algo_state := Some ?c\<rparr>)
                  (bitmap_init_gpu (vertex_count (subgraph par))) = ?p0"
    by (simp add: set_visited_def bitmap_init_gpu_def)
  have fin: "bfs_init_cost ?p4 t =
             par\<lparr>inbox := init_inbox par ?P, algo_state := Some (init_state t par)\<rparr>"
    by (simp add: bfs_init_cost_def Let_def ms init_state_def engine_get_finished_ptr_def)
  have k: "launch_kernel (Suc 0) (\<lambda>thread_index. bfs_init_bu_kernel thread_index v) vis = insert v vis"
    for v vis
    by (simp add: launch_kernel_def bfs_init_bu_kernel_def bitmap_set_gpu_def)
  show ?thesis
  proof (cases "processor_type par")
    case PROCESSOR_CPU
    have "bfs_init_cpu (par\<lparr>algo_state := Some ?c\<rparr>) t = ?p4"
      apply (simp add: bfs_init_cpu_def Let_def sv_cpu pids_cpu bitmap_set_cpu_def frontier_init_cpu_def)
      apply (cases "GET_PARTITION_ID (src (state_g t)) = par_id par")
       apply (simp_all add: set_visited_def init_state_def calloc_bfs_state_def)
      done
    with PROCESSOR_CPU assms fin show ?thesis
      by (simp add: bfs_init_def)
  next
    case PROCESSOR_GPU
    have "bfs_init_gpu (par\<lparr>algo_state := Some ?c\<rparr>) t = ?p4"
      apply (simp add: bfs_init_gpu_def Let_def sv_gpu pids_gpu k frontier_init_gpu_def)
      apply (cases "GET_PARTITION_ID (src (state_g t)) = par_id par")
       apply (simp_all add: set_visited_def init_state_def calloc_bfs_state_def k)
      done
    with PROCESSOR_GPU assms fin show ?thesis
      by (simp add: bfs_init_def)
  next
    case PROCESSOR_MAX
    with assms show ?thesis by simp
  qed
qed

subsection \<open>The example world\<close>

lemma ex_kernel_threads: "n \<le> kernel_threads ex_totem2 n"
  by (simp add: ex_totem2_def ex_totem_def)

lemma ex_found:
  "\<not> found ex_par0_init (stepwise_state ex_par0_init ex_state0) 0"
  "found ex_par0_init (stepwise_state ex_par0_init ex_state0) 1"
  by code_simp+

lemma ex_step_found: "step_found ex_par0_init (stepwise_state ex_par0_init ex_state0) = {1}"
proof -
  have "v < 2 \<longleftrightarrow> v = 0 \<or> v = 1" for v :: nat by auto
  moreover have "vertex_count (subgraph ex_par0_init) = 2"
    by (simp add: ex_par0_init_def ex_par0_def)
  ultimately show ?thesis
    using ex_found by (auto simp: step_found_def)
qed

lemma ex_bfs:
  "bfs ex_par0_init ex_totem2 = Inr (ex_par0_next, ex_totem2\<lparr>engine_finished := False\<rparr>)"
proof -
  let ?s = "stepwise_state ex_par0_init ex_state0"
  have flag: "step_flag ex_par0_init ?s ex_totem2 = ex_totem2\<lparr>engine_finished := False\<rparr>"
    by (simp only: step_flag_def ex_step_found) (simp add: store_flag_def ex_state0_def)
  have "visited (bu_result ex_par0_init ?s {1}) = visited ex_state1"
    by (auto simp: bu_result_def stepwise_state_def ex_par0_init_def ex_par0_def ex_state0_def
          ex_state1_def fun_eq_iff)
  moreover have "frontier (bu_result ex_par0_init ?s {1}) = frontier ex_state1"
    by (auto simp: bu_result_def stepwise_state_def ex_par0_init_def ex_par0_def ex_state0_def
          ex_state1_def fun_eq_iff)
  moreover have "cost (bu_result ex_par0_init ?s {1}) = cost ex_state1"
    by code_simp
  moreover have "frontier_state (bu_result ex_par0_init ?s {1}) = frontier_state ex_state1"
    by (simp add: stepwise_state_def ex_par0_init_def ex_par0_def ex_state0_def
          ex_state1_def frontier_update_bitmap_cpu_def)
  moreover have "finished (bu_result ex_par0_init ?s {1}) = finished ex_state1"
    by (simp add: ex_state0_def ex_state1_def)
  ultimately have st: "(bu_result ex_par0_init ?s {1})\<lparr>level := level ex_state0 + 1\<rparr> = ex_state1"
    by (intro bfs_state_t.equality) (simp_all add: ex_state0_def ex_state1_def)
  have "bfs ex_par0_init ex_totem2 =
     Inr (ex_par0_init\<lparr>algo_state := Some ((bu_result ex_par0_init ?s
                   (step_found ex_par0_init ?s))\<lparr>level := level ex_state0 + 1\<rparr>)\<rparr>,
          step_flag ex_par0_init ?s ex_totem2)"
    by (rule bfs_eq)
       (simp_all add: ex_par0_init_def ex_par0_def ex_totem2_def ex_totem_def)
  also have "\<dots> = Inr (ex_par0_next, ex_totem2\<lparr>engine_finished := False\<rparr>)"
    by (simp only: ex_step_found st flag) (simp add: ex_par0_init_def ex_par0_next_def)
  finally show ?thesis .
qed

subsection \<open>The callbacks on a list of partitions\<close>

lemma count_gather_result [simp]:
  "count (inbox (gather_result par vis A) q) = count (inbox par q)"
  by (simp add: gather_result_def)

lemma bfs_gather_one_the:
  assumes "processor_type par \<noteq> PROCESSOR_MAX"
    and "count (inbox par rmt_pid) \<le> kernel_threads t (count (inbox par rmt_pid))"
  shows "bfs_gather_pids t (rmt_pid # rest) par =
           bfs_gather_pids t rest
             (gather_result par (visited (the (algo_state par)) (par_id par)) {rmt_pid})"
proof -
  let ?vis = "visited (the (algo_state par)) (par_id par)"
  have upd: "par\<lparr>inbox := (inbox par)(rmt_pid := gathered ?vis (inbox par rmt_pid))\<rparr>
             = gather_result par ?vis {rmt_pid}"
    if "rmt_pid \<noteq> par_id par" "count (inbox par rmt_pid) \<noteq> 0"
  proof -
    have "(inbox par)(rmt_pid := gathered ?vis (inbox par rmt_pid)) =
          inbox (gather_result par ?vis {rmt_pid})"
      using that by (intro ext) (simp add: gather_result_def)
    then show ?thesis by (simp add: gather_result_def)
  qed
  have same: "gather_result par ?vis {rmt_pid} = par"
    if "rmt_pid = par_id par \<or> count (inbox par rmt_pid) = 0"
  proof -
    have "inbox (gather_result par ?vis {rmt_pid}) = inbox par"
      using that by (intro ext) (auto simp: gather_result_def)
    then show ?thesis by (simp add: gather_result_def)
  qed
  show ?thesis
  proof (cases "rmt_pid = par_id par \<or> count (inbox par rmt_pid) = 0")
    case True
    with same show ?thesis by auto
  next
    case False
    with assms upd show ?thesis
      by (cases "processor_type par")
         (simp_all add: bfs_gather_cpu_eq launch_bfs_gather_gpu_eq)
  qed
qed

lemma bfs_gather_pids_the:
  assumes "processor_type par \<noteq> PROCESSOR_MAX"
    and "\<forall>q \<in> set pids. count (inbox par q) \<le> kernel_threads t (count (inbox par q))"
  shows "bfs_gather_pids t pids
           (gather_result par (visited (the (algo_state par)) (par_id par)) A) =
         Inr (gather_result par (visited (the (algo_state par)) (par_id par)) (A \<union> set pids))"
  using assms
proof (induction pids arbitrary: A)
  case Nil
  show ?case by simp
next
  case (Cons p pids)
  let ?vis = "visited (the (algo_state par)) (par_id par)"
  have "bfs_gather_pids t (p # pids) (gather_result par ?vis A) =
        bfs_gather_pids t pids (gather_result (gather_result par ?vis A) ?vis {p})"
    using Cons.prems bfs_gather_one_the[of "gather_result par ?vis A" p t pids] by simp
  also have "\<dots> = bfs_gather_pids t pids (gather_result par ?vis (insert p A))"
    by (simp only: gather_result_insert)
  also have "\<dots> = Inr (gather_result par ?vis (insert p A \<union> set pids))"
    using Cons.prems by (intro Cons.IH) simp_all
  finally show ?case by simp
qed

lemma bfs_gather_the:
  assumes "processor_type par \<noteq> PROCESSOR_MAX"
    and "\<forall>q < engine_partition_count t.
           count (inbox par q) \<le> kernel_threads t (count (inbox par q))"
  shows "bfs_gather par t =
           Inr (gather_result par (visited (the (algo_state par)) (par_id par))
                  {0..<engine_partition_count t})"
  using bfs_gather_pids_the[OF assms(1), of "[0..<engine_partition_count t]" t "{}"] assms(2)
  by (simp add: bfs_gather_def)

lemma engine_init_eq:
  assumes "\<forall>par \<in> set ps. processor_type par \<noteq> PROCESSOR_MAX"
  shows "engine_init t ps = Inr (map (init_par t) ps)"
  using assms
proof (induction ps)
  case Nil
  show ?case by simp
next
  case (Cons par ps)
  have "bfs_init par t = Inr (init_par t par)"
  proof (cases "vertex_count (subgraph par) = 0")
    case True
    then show ?thesis by (simp add: bfs_init_def init_par_def)
  next
    case False
    with Cons.prems bfs_init_eq[of par t] show ?thesis by (simp add: init_par_def)
  qed
  with Cons show ?case by simp
qed

lemma engine_gather_eq:
  assumes "\<forall>par \<in> set ps. processor_type par \<noteq> PROCESSOR_MAX \<and>
             (\<forall>q < engine_partition_count t.
                count (inbox par q) \<le> kernel_threads t (count (inbox par q)))"
  shows "engine_gather t ps = Inr (map (gather_par t) ps)"
  using assms
proof (induction ps)
  case Nil
  show ?case by simp
next
  case (Cons par ps)
  have "bfs_gather par t = Inr (gather_par t par)"
    unfolding gather_par_def using Cons.prems by (intro bfs_gather_the) simp_all
  with Cons show ?case by simp
qed

lemma engine_finalize_eq:
  assumes "\<forall>par \<in> set ps. processor_type par \<noteq> PROCESSOR_MAX"
  shows "engine_finalize ps = Inr (map finalize_par ps)"
  using assms
proof (induction ps)
  case Nil
  show ?case by simp
next
  case (Cons par ps)
  have "bfs_finalize par = Inr (finalize_par par)"
    using Cons.prems
    by (cases "processor_type par") (simp_all add: bfs_finalize_def finalize_par_def)
  with Cons show ?case by simp
qed

lemma engine_compute_first:
  assumes "engine_superstep t = 1"
  shows "engine_compute ps t =
           Inr (ps, t\<lparr>engine_finished :=
                        engine_finished t \<and> (\<forall>par \<in> set ps. vertex_count (subgraph par) = 0)\<rparr>)"
  using assms
proof (induction ps arbitrary: t)
  case Nil
  show ?case by simp
next
  case (Cons par ps)
  show ?case
  proof (cases "vertex_count (subgraph par) = 0")
    case True
    then have "bfs par t = Inr (par, t)" by (simp add: bfs_def)
    with True Cons.IH[OF Cons.prems] show ?thesis by simp
  next
    case False
    with Cons.prems have "bfs par t = Inr (par, t\<lparr>engine_finished := False\<rparr>)"
      by (simp add: bfs_def engine_report_not_finished_def)
    moreover have "engine_superstep (t\<lparr>engine_finished := False\<rparr>) = 1"
      using Cons.prems by simp
    ultimately show ?thesis
      using False Cons.IH[of "t\<lparr>engine_finished := False\<rparr>"] by simp
  qed
qed

lemma bfs_eq_the:
  assumes "vertex_count (subgraph par) \<noteq> 0" "engine_superstep t \<noteq> 1"
    and "processor_type par \<noteq> PROCESSOR_MAX"
    and "vertex_count (subgraph par) \<le> kernel_threads t (vertex_count (subgraph par))"
  shows "bfs par t =
     Inr (par\<lparr>algo_state := Some ((bu_result par (stepwise_state par (the (algo_state par)))
                   (step_found par (stepwise_state par (the (algo_state par)))))
                 \<lparr>level := level (the (algo_state par)) + 1\<rparr>)\<rparr>,
          step_flag par (stepwise_state par (the (algo_state par))) t)"
  using assms
  by (cases "processor_type par")
     (simp_all add: bfs_def stepwise_gpu_eq_cpu stepwise_cpu_eq Let_def)

lemma bfs_step_par:
  assumes "engine_superstep t \<noteq> 1"
    and "processor_type par \<noteq> PROCESSOR_MAX"
    and "vertex_count (subgraph par) \<noteq> 0 \<longrightarrow>
           finished (the (algo_state par)) = Engine_finished \<and>
           vertex_count (subgraph par) \<le> kernel_threads t (vertex_count (subgraph par))"
  shows "bfs par t = Inr (step_par par, t\<lparr>engine_finished := engine_finished t \<and> quiet_par par\<rparr>)"
proof (cases "vertex_count (subgraph par) = 0")
  case True
  then show ?thesis by (simp add: bfs_def step_par_def quiet_par_def)
next
  case False
  let ?s = "stepwise_state par (the (algo_state par))"
  have "step_flag par ?s t = t\<lparr>engine_finished := engine_finished t \<and> quiet_par par\<rparr>"
    using False assms(3) by (simp add: step_flag_def quiet_par_def store_flag_def)
  with False assms bfs_eq_the[of par t] show ?thesis
    by (simp add: step_par_def)
qed

lemma engine_compute_eq:
  assumes "engine_superstep t \<noteq> 1"
    and "\<forall>par \<in> set ps. processor_type par \<noteq> PROCESSOR_MAX \<and>
           (vertex_count (subgraph par) \<noteq> 0 \<longrightarrow>
              finished (the (algo_state par)) = Engine_finished \<and>
              vertex_count (subgraph par) \<le> kernel_threads t (vertex_count (subgraph par)))"
  shows "engine_compute ps t =
           Inr (map step_par ps,
                t\<lparr>engine_finished := engine_finished t \<and> (\<forall>par \<in> set ps. quiet_par par)\<rparr>)"
  using assms
proof (induction ps arbitrary: t)
  case Nil
  show ?case by simp
next
  case (Cons par ps)
  let ?t = "t\<lparr>engine_finished := engine_finished t \<and> quiet_par par\<rparr>"
  have "bfs par t = Inr (step_par par, ?t)"
    using Cons.prems by (intro bfs_step_par) simp_all
  moreover have "engine_compute ps ?t =
           Inr (map step_par ps,
                ?t\<lparr>engine_finished := engine_finished ?t \<and> (\<forall>par \<in> set ps. quiet_par par)\<rparr>)"
    using Cons.prems by (intro Cons.IH) simp_all
  ultimately show ?case by (simp add: conj_assoc)
qed

subsection \<open>Walks and levels\<close>

lemma walk_Suc_iff: "walk E a (Suc n) c \<longleftrightarrow> (\<exists>b. walk E a n b \<and> E b c)"
  by (auto elim: walk.cases intro: walk.intros)

lemma walk_0_iff [simp]: "walk E a 0 b \<longleftrightarrow> b = a"
  by (auto elim: walk.cases intro: walk.intros)

lemma near_0 [simp]: "near ps s 0 = {s}"
  by (auto simp: near_def)

lemma near_mono: "k \<le> m \<Longrightarrow> near ps s k \<subseteq> near ps s m"
  by (auto simp: near_def intro: order_trans)

lemma near_Suc:
  "near ps s (Suc k) = near ps s k \<union> {a. \<exists>b \<in> near ps s k. pedge ps a b}"
proof (intro set_eqI iffI)
  fix a assume "a \<in> near ps s (Suc k)"
  then obtain n where n: "n \<le> Suc k" "walk (redge ps) s n a" by (auto simp: near_def)
  show "a \<in> near ps s k \<union> {a. \<exists>b \<in> near ps s k. pedge ps a b}"
  proof (cases "n \<le> k")
    case True
    with n show ?thesis by (auto simp: near_def)
  next
    case False
    with n have "n = Suc k" by simp
    with n(2) obtain b where "walk (redge ps) s k b" "redge ps b a"
      by (auto simp: walk_Suc_iff)
    then have "b \<in> near ps s k" "pedge ps a b"
      unfolding near_def redge_def by blast+
    then show ?thesis by blast
  qed
next
  fix a assume "a \<in> near ps s k \<union> {a. \<exists>b \<in> near ps s k. pedge ps a b}"
  then show "a \<in> near ps s (Suc k)"
  proof
    assume "a \<in> near ps s k"
    with near_mono[of k "Suc k" ps s] show ?thesis by auto
  next
    assume "a \<in> {a. \<exists>b \<in> near ps s k. pedge ps a b}"
    then obtain b n where "n \<le> k" "walk (redge ps) s n b" "pedge ps a b"
      by (auto simp: near_def)
    then have "walk (redge ps) s (Suc n) a" "Suc n \<le> Suc k"
      by (auto intro: walk_Suc simp: redge_def)
    then show ?thesis unfolding near_def by blast
  qed
qed

lemma near_before_subset: "near_before ps s k \<subseteq> near ps s k"
  using near_mono[of _ _ ps s] by (auto simp: near_before_def split: nat.splits)

lemma near_before_Suc [simp]: "near_before ps s (Suc k) = near ps s k"
  by (simp add: near_before_def)

text \<open>A vertex next to a vertex of the level before is itself within the level.\<close>

lemma near_before_edge:
  assumes "pedge ps a b" and "b \<in> near_before ps s k"
  shows "a \<in> near ps s k"
proof (cases k)
  case 0
  with assms show ?thesis by (simp add: near_before_def)
next
  case (Suc j)
  with assms show ?thesis by (auto simp: near_Suc)
qed

lemma new_level_iff:
  "a \<in> near ps s (Suc k) - near ps s k \<longleftrightarrow>
     a \<notin> near ps s k \<and> (\<exists>b. pedge ps a b \<and> b \<in> near ps s k - near_before ps s k)"
  using near_before_edge[of ps a _ s k] by (auto simp: near_Suc)

lemma new_level_iff':
  "a \<in> near ps s (Suc k) - near ps s k \<longleftrightarrow>
     a \<notin> near ps s k \<and> (\<exists>b. pedge ps a b \<and> b \<in> near ps s k)"
  by (auto simp: near_Suc)

lemma near_fixpoint:
  assumes "near ps s (Suc k) = near ps s k"
  shows "near ps s (k + m) = near ps s k"
proof (induction m)
  case 0
  show ?case by simp
next
  case (Suc m)
  have "near ps s (Suc (k + m)) = near ps s (k + m) \<union> {a. \<exists>b \<in> near ps s (k + m). pedge ps a b}"
    by (rule near_Suc)
  also have "\<dots> = near ps s k \<union> {a. \<exists>b \<in> near ps s k. pedge ps a b}"
    by (simp only: Suc)
  also have "\<dots> = near ps s (Suc k)" by (rule near_Suc[symmetric])
  finally show ?case using assms by simp
qed

lemma near_fixpoint_all:
  assumes "near ps s (Suc k) = near ps s k" and "walk (redge ps) s n a"
  shows "a \<in> near ps s k"
proof -
  have "n \<le> k + n" by simp
  with assms(2) have "a \<in> near ps s (k + n)" unfolding near_def by blast
  with near_fixpoint[OF assms(1)] show ?thesis by simp
qed

lemma sdist_walk: "a \<in> near ps s k \<Longrightarrow> walk (redge ps) s (sdist ps s a) a"
  unfolding sdist_def near_def by (auto intro: LeastI)

lemma sdist_le: "walk (redge ps) s n a \<Longrightarrow> sdist ps s a \<le> n"
  unfolding sdist_def by (rule Least_le)

lemma sdist_near: "a \<in> near ps s k \<Longrightarrow> sdist ps s a \<le> k"
  by (auto simp: near_def dest: sdist_le)

lemma sdist_new:
  assumes "a \<in> near ps s (Suc k)" and "a \<notin> near ps s k"
  shows "sdist ps s a = Suc k"
proof -
  from assms(1) have "sdist ps s a \<le> Suc k" by (rule sdist_near)
  moreover have "\<not> sdist ps s a \<le> k"
  proof
    assume "sdist ps s a \<le> k"
    with sdist_walk[OF assms(1)] have "a \<in> near ps s k" by (auto simp: near_def)
    with assms(2) show False by simp
  qed
  ultimately show ?thesis by simp
qed

lemma sdist_source [simp]: "sdist ps s s = 0"
  using sdist_le[of ps s 0 s] by simp

lemma near_is_vertex:
  assumes "is_vertex ps s" and "a \<in> near ps s k"
  shows "is_vertex ps a"
proof -
  from assms(2) obtain n where "walk (redge ps) s n a" by (auto simp: near_def)
  then show ?thesis
    using assms(1) by (cases rule: walk.cases) (auto simp: redge_def pedge_def)
qed

lemma wf_worldD: "wf_world ps t \<Longrightarrow> p < length ps \<Longrightarrow> wf_partition t ps p"
  by (simp add: wf_world_def)

lemma wf_partition_edge:
  "wf_partition t ps p \<Longrightarrow> v < vertex_count (subgraph (ps ! p)) \<Longrightarrow>
     e \<in> set (nbr_list (subgraph (ps ! p)) v) \<Longrightarrow> wf_edge ps p e"
  by (simp add: wf_partition_def)

lemma pedge_target:
  "p < length ps \<Longrightarrow> v < vertex_count (subgraph (ps ! p)) \<Longrightarrow>
     e \<in> set (nbr_list (subgraph (ps ! p)) v) \<Longrightarrow> pedge ps (p, v) (target ps p e)"
  by (simp add: pedge_def is_vertex_def)

lemma pedge_iff:
  "pedge ps (p, v) b \<longleftrightarrow>
     p < length ps \<and> v < vertex_count (subgraph (ps ! p)) \<and>
     (\<exists>e \<in> set (nbr_list (subgraph (ps ! p)) v). b = target ps p e)"
  by (auto simp: pedge_def is_vertex_def)

text \<open>What the scan of one vertex reads is whether its neighbour is within the level.\<close>

lemma scan_reads_level:
  assumes wf: "wf_partition t ps0 p" and p: "p < length ps0"
    and shape: "same_shape (ps0 ! p) par"
    and st: "state_ok ps0 infc s k p st"
    and out: "outbox_ok ps0 (near ps0 s k) p par"
    and v: "v < vertex_count (subgraph (ps0 ! p))" "(p, v) \<notin> near ps0 s k"
    and e: "e \<in> set (nbr_list (subgraph (ps0 ! p)) v)"
  shows "bitmap_is_set
           (bitmap_at par (stepwise_state par st)
              (frontier (stepwise_state par st) (GET_PARTITION_ID e))) (GET_VERTEX_ID e)
         \<longleftrightarrow> target ps0 p e \<in> near ps0 s k"
proof -
  have pid: "par_id par = p"
    using wf shape by (simp add: wf_partition_def same_shape_def)
  have we: "wf_edge ps0 p e" using wf v(1) e by (rule wf_partition_edge)
  have edge: "pedge ps0 (p, v) (target ps0 p e)" using p v(1) e by (rule pedge_target)
  show ?thesis
  proof (cases "GET_PARTITION_ID e = p")
    case True
    have "target ps0 p e \<notin> near_before ps0 s k"
      using near_before_edge[OF edge] v(2) by blast
    moreover have "bitmap_at par (stepwise_state par st)
              (frontier (stepwise_state par st) (GET_PARTITION_ID e)) =
          {x. (p, x) \<in> near ps0 s k} - {x. (p, x) \<in> near_before ps0 s k}"
      using True st pid
      by (simp add: stepwise_state_def bitmap_at_def frontier_update_bitmap_cpu_def state_ok_def)
    ultimately show ?thesis
      using True by (auto simp: bitmap_is_set_def target_def)
  next
    case False
    let ?q = "GET_PARTITION_ID e"
    from we False have q: "?q < length ps0" "GET_VERTEX_ID e < count (inbox (ps0 ! ?q) p)"
      "count (outbox (ps0 ! p) ?q) \<noteq> 0"
      by (simp_all add: wf_edge_def)
    with st False have "frontier st ?q = Outbox_pull_values ?q"
      by (simp add: state_ok_def)
    with False pid have "bitmap_at par (stepwise_state par st)
              (frontier (stepwise_state par st) ?q) = pull_values (outbox par ?q)"
      by (simp add: stepwise_state_def bitmap_at_def)
    moreover have "GET_VERTEX_ID e \<in> pull_values (outbox par ?q) \<longleftrightarrow>
        (?q, rmt_nbrs (inbox (ps0 ! ?q) p) ! GET_VERTEX_ID e) \<in> near ps0 s k"
      using out q False by (simp add: outbox_ok_def)
    ultimately show ?thesis
      using False by (simp add: bitmap_is_set_def target_def)
  qed
qed

lemma step_found_level:
  assumes wf: "wf_partition t ps0 p" and p: "p < length ps0"
    and shape: "same_shape (ps0 ! p) par"
    and st: "state_ok ps0 infc s k p st"
    and out: "outbox_ok ps0 (near ps0 s k) p par"
  shows "step_found par (stepwise_state par st) =
           {v. (p, v) \<in> near ps0 s (Suc k) - near ps0 s k}"
proof (intro set_eqI)
  fix v
  have pid: "par_id par = p" and g: "subgraph par = subgraph (ps0 ! p)"
    using wf shape by (simp_all add: wf_partition_def same_shape_def)
  have vis: "visited st p = {v. (p, v) \<in> near ps0 s k}"
    using st by (simp add: state_ok_def)
  show "v \<in> step_found par (stepwise_state par st) \<longleftrightarrow>
        v \<in> {v. (p, v) \<in> near ps0 s (Suc k) - near ps0 s k}"
  proof (cases "v < vertex_count (subgraph (ps0 ! p)) \<and> (p, v) \<notin> near ps0 s k")
    case True
    then have v: "v < vertex_count (subgraph (ps0 ! p))" "(p, v) \<notin> near ps0 s k" by simp_all
    have "v \<in> step_found par (stepwise_state par st) \<longleftrightarrow>
          (\<exists>e \<in> set (nbr_list (subgraph (ps0 ! p)) v). target ps0 p e \<in> near ps0 s k)"
      using v scan_reads_level[OF wf p shape st out v]
      by (simp add: step_found_def found_def has_frontier_nbr_nbr_list g pid vis
            bitmap_is_set_def)
    also have "\<dots> \<longleftrightarrow> (\<exists>b. pedge ps0 (p, v) b \<and> b \<in> near ps0 s k)"
      unfolding pedge_iff using p v(1) by blast
    finally show ?thesis using v(2) by (auto simp: near_Suc)
  next
    case False
    then show ?thesis
      using p by (auto simp: step_found_def found_def g pid vis bitmap_is_set_def
                     near_Suc pedge_iff)
  qed
qed

subsection \<open>The callbacks keep the shape of a partition\<close>

lemma same_shape_refl [simp]: "same_shape par par"
  by (simp add: same_shape_def)

lemma rmt_nbrs_box_reset [simp]: "rmt_nbrs (box_reset box) = rmt_nbrs box"
  by (simp add: box_reset_def)

lemma same_shape_init: "same_shape par0 par \<Longrightarrow> same_shape par0 (init_par t par)"
  by (simp add: same_shape_def init_par_def init_inbox_def)

lemma same_shape_gather: "same_shape par0 par \<Longrightarrow> same_shape par0 (gather_par t par)"
  by (simp add: same_shape_def gather_par_def gather_result_def)

lemma same_shape_step: "same_shape par0 par \<Longrightarrow> same_shape par0 (step_par par)"
  by (simp add: same_shape_def step_par_def)

lemma same_shape_pull: "same_shape par0 par \<Longrightarrow> same_shape par0 (grooves_pull ps par)"
  by (simp add: same_shape_def grooves_pull_def)

lemma algo_state_gather [simp]: "algo_state (gather_par t par) = algo_state par"
  by (simp add: gather_par_def gather_result_def)

lemma algo_state_pull [simp]: "algo_state (grooves_pull ps par) = algo_state par"
  by (simp add: grooves_pull_def)

lemma inbox_pull [simp]: "inbox (grooves_pull ps par) = inbox par"
  by (simp add: grooves_pull_def)

lemma inbox_step [simp]: "inbox (step_par par) = inbox par"
  by (simp add: step_par_def)

subsection \<open>The state after init\<close>

lemma init_state_ok:
  assumes pid: "par_id par = p" and g: "subgraph par = subgraph (ps0 ! p)"
    and out: "\<forall>q. count (outbox par q) = count (outbox (ps0 ! p) q)"
    and src: "src (state_g t) = s" and s: "is_vertex ps0 s"
    and pc: "engine_partition_count t = length ps0"
  shows "state_ok ps0 (INF_COST t) s 0 p (init_state t par)"
proof -
  let ?n = "vertex_count (subgraph (ps0 ! p))"
  have vis: "visited (init_state t par) p = {v. (p, v) \<in> near ps0 s 0}"
    using pid src by (cases s) (auto simp: init_state_def GET_PARTITION_ID_def GET_VERTEX_ID_def)
  have cst: "cost (init_state t par) =
               map (\<lambda>v. if (p, v) \<in> near ps0 s 0 then of_nat (sdist ps0 s (p, v)) else INF_COST t)
                 [0..<?n]"
  proof (rule nth_equalityI)
    show "length (cost (init_state t par)) = length (map (\<lambda>v. if (p, v) \<in> near ps0 s 0
            then of_nat (sdist ps0 s (p, v)) else INF_COST t) [0..<?n])"
      by (simp add: init_state_def g)
  next
    fix i assume "i < length (cost (init_state t par))"
    then have i: "i < ?n" by (simp add: init_state_def g split: if_splits)
    then show "cost (init_state t par) ! i =
        map (\<lambda>v. if (p, v) \<in> near ps0 s 0 then of_nat (sdist ps0 s (p, v)) else INF_COST t)
          [0..<?n] ! i"
      using pid src
      by (cases s)
         (auto simp: init_state_def g GET_PARTITION_ID_def GET_VERTEX_ID_def nth_list_update)
  qed
  have fr: "\<forall>q < length ps0. q \<noteq> p \<and> count (outbox (ps0 ! p) q) \<noteq> 0 \<longrightarrow>
              frontier (init_state t par) q = Outbox_pull_values q"
    using pid out pc by (simp add: init_state_def init_frontier_def)
  show ?thesis
    unfolding state_ok_def
    using vis cst fr by (simp add: init_state_def near_before_def)
qed

lemma wf_shape:
  assumes "wf_partition t ps0 p" and "same_shape (ps0 ! p) par"
  shows "par_id par = p" and "subgraph par = subgraph (ps0 ! p)"
    and "processor_type par \<noteq> PROCESSOR_MAX"
  using assms by (simp_all add: wf_partition_def same_shape_def)

lemma wf_empty_inbox:
  assumes wf: "wf_partition t ps0 p" and q: "q < length ps0" "q \<noteq> p"
    and e: "vertex_count (subgraph (ps0 ! p)) = 0"
  shows "count (inbox (ps0 ! p) q) = 0"
proof (rule ccontr)
  assume "count (inbox (ps0 ! p) q) \<noteq> 0"
  then have "0 < count (inbox (ps0 ! p) q)" by simp
  with wf q have "rmt_nbrs (inbox (ps0 ! p) q) ! 0 < vertex_count (subgraph (ps0 ! p))"
    by (simp add: wf_partition_def)
  with e show False by simp
qed

lemma wf_inbox_vertex:
  assumes wf: "wf_partition t ps0 p" and q: "q < length ps0" "q \<noteq> p"
    and x: "x < count (inbox (ps0 ! p) q)"
  shows "rmt_nbrs (inbox (ps0 ! p) q) ! x < vertex_count (subgraph (ps0 ! p))"
  using assms by (simp add: wf_partition_def)

lemma init_world:
  assumes wf: "wf_world ps0 t0"
    and src: "src (state_g t) = s" and s: "is_vertex ps0 s"
    and pc: "engine_partition_count t = length ps0"
  shows "world_inv ps0 (INF_COST t) s 0 (map (init_par t) ps0)"
  unfolding world_inv_def
proof (intro conjI allI impI)
  show "length (map (init_par t) ps0) = length ps0" by simp
next
  fix p assume p: "p < length ps0"
  then show "same_shape (ps0 ! p) (map (init_par t) ps0 ! p)"
    by (simp add: same_shape_init)
next
  fix p assume p: "p < length ps0" and ne: "vertex_count (subgraph (ps0 ! p)) \<noteq> 0"
  have "par_id (ps0 ! p) = p" using wf_worldD[OF wf p] by (simp add: wf_partition_def)
  then have "state_ok ps0 (INF_COST t) s 0 p (init_state t (ps0 ! p))"
    using src s pc by (intro init_state_ok) simp_all
  with p ne show "\<exists>st. algo_state (map (init_par t) ps0 ! p) = Some st \<and>
                      state_ok ps0 (INF_COST t) s 0 p st"
    by (simp add: init_par_def)
qed

lemma init_inboxes:
  assumes wf: "wf_world ps0 t0" and pc: "engine_partition_count t = length ps0"
  shows "inboxes_ok ps0 {} (map (init_par t) ps0)"
  unfolding inboxes_ok_def inbox_ok_def
proof (intro allI impI)
  fix p q x
  assume p: "p < length ps0" and q: "q < length ps0" "q \<noteq> p"
    and x: "x < count (inbox (ps0 ! p) q)"
  have wfp: "wf_partition t0 ps0 p" using wf p by (rule wf_worldD)
  then have pid: "par_id (ps0 ! p) = p" by (simp add: wf_partition_def)
  have ne: "vertex_count (subgraph (ps0 ! p)) \<noteq> 0"
    using wf_empty_inbox[OF wfp q] x by auto
  have "x \<notin> pull_values (inbox (init_par t (ps0 ! p)) q)"
    using ne q x pid pc by (simp add: init_par_def init_inbox_def box_reset_def)
  with p show "(x \<in> pull_values (inbox (map (init_par t) ps0 ! p) q)) =
               ((p, rmt_nbrs (inbox (ps0 ! p) q) ! x) \<in> {})"
    by simp
qed

subsection \<open>Gather and communication\<close>

lemma gather_world:
  "world_inv ps0 infc s k ps \<Longrightarrow> world_inv ps0 infc s k (map (gather_par t) ps)"
  by (simp add: world_inv_def same_shape_gather)

lemma gather_inboxes:
  assumes wf: "wf_world ps0 t0" and inv: "world_inv ps0 infc s k ps"
    and inb: "inboxes_ok ps0 S ps" and S: "S \<subseteq> near ps0 s k"
    and pc: "engine_partition_count t = length ps0"
  shows "inboxes_ok ps0 (near ps0 s k) (map (gather_par t) ps)"
  unfolding inboxes_ok_def inbox_ok_def
proof (intro allI impI)
  fix p q x
  assume p: "p < length ps0" and q: "q < length ps0" "q \<noteq> p"
    and x: "x < count (inbox (ps0 ! p) q)"
  let ?par = "ps ! p"
  let ?r = "rmt_nbrs (inbox (ps0 ! p) q) ! x"
  have len: "length ps = length ps0" using inv by (simp add: world_inv_def)
  have wfp: "wf_partition t0 ps0 p" using wf p by (rule wf_worldD)
  have shape: "same_shape (ps0 ! p) ?par" using inv p by (simp add: world_inv_def)
  have pid: "par_id ?par = p" using wfp shape by (rule wf_shape)
  have cnt: "count (inbox ?par q) = count (inbox (ps0 ! p) q)"
    and rn: "rmt_nbrs (inbox ?par q) = rmt_nbrs (inbox (ps0 ! p) q)"
    using shape by (simp_all add: same_shape_def)
  have r: "?r < vertex_count (subgraph (ps0 ! p))" using wfp q x by (rule wf_inbox_vertex)
  then have "vertex_count (subgraph (ps0 ! p)) \<noteq> 0" by simp
  with inv p obtain st where st: "algo_state ?par = Some st" "state_ok ps0 infc s k p st"
    by (auto simp: world_inv_def)
  then have vis: "visited (the (algo_state ?par)) p = {v. (p, v) \<in> near ps0 s k}"
    by (simp add: state_ok_def)
  have old: "x \<in> pull_values (inbox ?par q) \<longleftrightarrow> (p, ?r) \<in> S"
    using inb p q x by (simp add: inboxes_ok_def inbox_ok_def)
  have "x \<in> pull_values (inbox (gather_par t ?par) q) \<longleftrightarrow> (p, ?r) \<in> S \<or> (p, ?r) \<in> near ps0 s k"
    using q x pid pc cnt rn old
    by (simp add: gather_par_def gather_result_def gathered_def vis bitmap_is_set_def)
  with S p len show "(x \<in> pull_values (inbox (map (gather_par t) ps ! p) q)) =
                 ((p, ?r) \<in> near ps0 s k)"
    by auto
qed

lemma communicate_world:
  "world_inv ps0 infc s k ps \<Longrightarrow> world_inv ps0 infc s k (grooves_communicate ps)"
  by (simp add: world_inv_def grooves_communicate_def same_shape_pull)

lemma communicate_inboxes:
  "length ps = length ps0 \<Longrightarrow> inboxes_ok ps0 S ps \<Longrightarrow> inboxes_ok ps0 S (grooves_communicate ps)"
  by (simp add: inboxes_ok_def inbox_ok_def grooves_communicate_def)

lemma communicate_outboxes:
  assumes wf: "wf_world ps0 t0" and inv: "world_inv ps0 infc s k ps"
    and inb: "inboxes_ok ps0 S ps"
  shows "outboxes_ok ps0 S (grooves_communicate ps)"
  unfolding outboxes_ok_def outbox_ok_def
proof (intro allI impI)
  fix p q x
  assume p: "p < length ps0" and q: "q < length ps0" "q \<noteq> p"
    and x: "x < count (inbox (ps0 ! q) p)"
  have len: "length ps = length ps0" using inv by (simp add: world_inv_def)
  have wfp: "wf_partition t0 ps0 p" using wf p by (rule wf_worldD)
  have shape: "same_shape (ps0 ! p) (ps ! p)" using inv p by (simp add: world_inv_def)
  have pid: "par_id (ps ! p) = p" using wfp shape by (rule wf_shape)
  have "x \<in> pull_values (inbox (ps ! q) p) \<longleftrightarrow> (q, rmt_nbrs (inbox (ps0 ! q) p) ! x) \<in> S"
    using inb p q x by (simp add: inboxes_ok_def inbox_ok_def)
  then show "(x \<in> pull_values (outbox (grooves_communicate ps ! p) q)) =
        ((q, rmt_nbrs (inbox (ps0 ! q) p) ! x) \<in> S)"
    using p q len pid by (simp add: grooves_communicate_def grooves_pull_def)
qed

subsection \<open>One superstep\<close>

lemma step_state_ok:
  assumes wf: "wf_partition t ps0 p" and p: "p < length ps0"
    and shape: "same_shape (ps0 ! p) par"
    and st: "state_ok ps0 infc s k p st"
    and out: "outbox_ok ps0 (near ps0 s k) p par"
  shows "state_ok ps0 infc s (Suc k) p
           ((bu_result par (stepwise_state par st) (step_found par (stepwise_state par st)))
              \<lparr>level := level st + 1\<rparr>)"
proof -
  let ?n = "vertex_count (subgraph (ps0 ! p))"
  let ?Q = "{v. (p, v) \<in> near ps0 s (Suc k) - near ps0 s k}"
  have Q: "step_found par (stepwise_state par st) = ?Q"
    using wf p shape st out by (rule step_found_level)
  have pid: "par_id par = p" using wf shape by (rule wf_shape)
  have mono: "near ps0 s k \<subseteq> near ps0 s (Suc k)" by (rule near_mono) simp
  have lv: "level st = of_nat k" and vis: "visited st p = {v. (p, v) \<in> near ps0 s k}"
    and cst: "cost st = map (\<lambda>v. if (p, v) \<in> near ps0 s k then of_nat (sdist ps0 s (p, v)) else infc)
                 [0..<?n]"
    and fr: "\<forall>q < length ps0. q \<noteq> p \<and> count (outbox (ps0 ! p) q) \<noteq> 0 \<longrightarrow>
               frontier st q = Outbox_pull_values q"
    and fin: "finished st = Engine_finished"
    using st by (simp_all add: state_ok_def)
  have c1: "visited (bu_result par (stepwise_state par st) ?Q) p = {v. (p, v) \<in> near ps0 s (Suc k)}"
    using mono by (auto simp: bu_result_def pid vis)
  have c2: "cost (bu_result par (stepwise_state par st) ?Q) =
      map (\<lambda>v. if (p, v) \<in> near ps0 s (Suc k) then of_nat (sdist ps0 s (p, v)) else infc) [0..<?n]"
  proof (rule nth_equalityI)
    show "length (cost (bu_result par (stepwise_state par st) ?Q)) =
          length (map (\<lambda>v. if (p, v) \<in> near ps0 s (Suc k) then of_nat (sdist ps0 s (p, v)) else infc)
                    [0..<?n])"
      by (simp add: bu_result_def cst)
  next
    fix i assume "i < length (cost (bu_result par (stepwise_state par st) ?Q))"
    then have i: "i < ?n" by (simp add: bu_result_def cst)
    show "cost (bu_result par (stepwise_state par st) ?Q) ! i =
          map (\<lambda>v. if (p, v) \<in> near ps0 s (Suc k) then of_nat (sdist ps0 s (p, v)) else infc)
            [0..<?n] ! i"
    proof (cases "(p, i) \<in> near ps0 s k")
      case True
      with mono have "(p, i) \<in> near ps0 s (Suc k)" by blast
      with True i show ?thesis by (simp add: bu_result_def cst)
    next
      case False
      show ?thesis
      proof (cases "(p, i) \<in> near ps0 s (Suc k)")
        case True
        with False have "sdist ps0 s (p, i) = Suc k" by (intro sdist_new)
        with True False i show ?thesis by (simp add: bu_result_def cst lv)
      next
        case nn: False
        with False i show ?thesis by (simp add: bu_result_def cst)
      qed
    qed
  qed
  have c3: "visited_last (frontier_state (bu_result par (stepwise_state par st) ?Q)) =
              {v. (p, v) \<in> near_before ps0 s (Suc k)}"
    by (simp add: bu_result_def stepwise_state_def frontier_update_bitmap_cpu_def pid vis)
  have c4: "\<forall>q < length ps0. q \<noteq> p \<and> count (outbox (ps0 ! p) q) \<noteq> 0 \<longrightarrow>
              frontier (bu_result par (stepwise_state par st) ?Q) q = Outbox_pull_values q"
    using fr by (simp add: bu_result_def stepwise_state_def pid)
  have c5: "finished (bu_result par (stepwise_state par st) ?Q) = Engine_finished"
    using fin by (simp add: bu_result_def)
  show ?thesis
    unfolding state_ok_def Q using c1 c2 c3 c4 c5 lv by simp
qed

lemma step_world:
  assumes wf: "wf_world ps0 t0" and inv: "world_inv ps0 infc s k ps"
    and out: "outboxes_ok ps0 (near ps0 s k) ps"
  shows "world_inv ps0 infc s (Suc k) (map step_par ps)"
  unfolding world_inv_def
proof (intro conjI allI impI)
  show "length (map step_par ps) = length ps0" using inv by (simp add: world_inv_def)
next
  fix p assume p: "p < length ps0"
  with inv show "same_shape (ps0 ! p) (map step_par ps ! p)"
    by (simp add: world_inv_def same_shape_step)
next
  fix p assume p: "p < length ps0" and ne: "vertex_count (subgraph (ps0 ! p)) \<noteq> 0"
  have len: "length ps = length ps0" using inv by (simp add: world_inv_def)
  have wfp: "wf_partition t0 ps0 p" using wf p by (rule wf_worldD)
  have shape: "same_shape (ps0 ! p) (ps ! p)" using inv p by (simp add: world_inv_def)
  have g: "subgraph (ps ! p) = subgraph (ps0 ! p)" using wfp shape by (rule wf_shape)
  from inv p ne obtain st where st: "algo_state (ps ! p) = Some st" "state_ok ps0 infc s k p st"
    by (auto simp: world_inv_def)
  have o: "outbox_ok ps0 (near ps0 s k) p (ps ! p)" using out p by (simp add: outboxes_ok_def)
  have "state_ok ps0 infc s (Suc k) p
           ((bu_result (ps ! p) (stepwise_state (ps ! p) st)
               (step_found (ps ! p) (stepwise_state (ps ! p) st)))\<lparr>level := level st + 1\<rparr>)"
    using wfp p shape st(2) o by (rule step_state_ok)
  with p len ne st(1) g
  show "\<exists>st. algo_state (map step_par ps ! p) = Some st \<and> state_ok ps0 infc s (Suc k) p st"
    by (simp add: step_par_def)
qed

lemma step_inboxes:
  "length ps = length ps0 \<Longrightarrow> inboxes_ok ps0 S ps \<Longrightarrow> inboxes_ok ps0 S (map step_par ps)"
  by (simp add: inboxes_ok_def inbox_ok_def)

lemma step_quiet:
  assumes wf: "wf_world ps0 t0" and inv: "world_inv ps0 infc s k ps"
    and out: "outboxes_ok ps0 (near ps0 s k) ps" and s: "is_vertex ps0 s"
  shows "(\<forall>par \<in> set ps. quiet_par par) \<longleftrightarrow> near ps0 s (Suc k) = near ps0 s k"
proof -
  have len: "length ps = length ps0" using inv by (simp add: world_inv_def)
  have found: "step_found (ps ! p) (stepwise_state (ps ! p) (the (algo_state (ps ! p)))) =
                 {v. (p, v) \<in> near ps0 s (Suc k) - near ps0 s k}"
    and g: "subgraph (ps ! p) = subgraph (ps0 ! p)"
    if p: "p < length ps0" "vertex_count (subgraph (ps0 ! p)) \<noteq> 0" for p
  proof -
    have wfp: "wf_partition t0 ps0 p" using wf p(1) by (rule wf_worldD)
    have shape: "same_shape (ps0 ! p) (ps ! p)" using inv p by (simp add: world_inv_def)
    from inv p obtain st where st: "algo_state (ps ! p) = Some st" "state_ok ps0 infc s k p st"
      by (auto simp: world_inv_def)
    have o: "outbox_ok ps0 (near ps0 s k) p (ps ! p)" using out p by (simp add: outboxes_ok_def)
    show "step_found (ps ! p) (stepwise_state (ps ! p) (the (algo_state (ps ! p)))) =
                 {v. (p, v) \<in> near ps0 s (Suc k) - near ps0 s k}"
      using step_found_level[OF wfp p(1) shape st(2) o] st(1) by simp
    show "subgraph (ps ! p) = subgraph (ps0 ! p)" using wfp shape by (rule wf_shape)
  qed
  have g': "subgraph (ps ! p) = subgraph (ps0 ! p)" if "p < length ps0" for p
    using inv that by (simp add: world_inv_def same_shape_def)
  show ?thesis
  proof
    assume quiet: "\<forall>par \<in> set ps. quiet_par par"
    have "near ps0 s (Suc k) \<subseteq> near ps0 s k"
    proof
      fix a assume a: "a \<in> near ps0 s (Suc k)"
      obtain p v where pv: "a = (p, v)" by (cases a)
      from near_is_vertex[OF s a] pv
      have p: "p < length ps0" and v: "v < vertex_count (subgraph (ps0 ! p))"
        by (simp_all add: is_vertex_def)
      then have ne: "vertex_count (subgraph (ps0 ! p)) \<noteq> 0" by simp
      from p len have "ps ! p \<in> set ps" by simp
      with quiet have "quiet_par (ps ! p)" by blast
      with ne g'[OF p] found[OF p ne]
      have "{v. (p, v) \<in> near ps0 s (Suc k) - near ps0 s k} = {}"
        by (simp add: quiet_par_def)
      with a pv show "a \<in> near ps0 s k" by blast
    qed
    moreover have "near ps0 s k \<subseteq> near ps0 s (Suc k)" by (rule near_mono) simp
    ultimately show "near ps0 s (Suc k) = near ps0 s k" by blast
  next
    assume eq: "near ps0 s (Suc k) = near ps0 s k"
    show "\<forall>par \<in> set ps. quiet_par par"
    proof
      fix par assume "par \<in> set ps"
      then obtain p where p: "p < length ps0" "par = ps ! p"
        using len by (auto simp: in_set_conv_nth)
      show "quiet_par par"
      proof (cases "vertex_count (subgraph (ps0 ! p)) = 0")
        case True
        with g'[OF p(1)] p(2) show ?thesis by (simp add: quiet_par_def)
      next
        case False
        with found[OF p(1) False] eq p(2) show ?thesis by (simp add: quiet_par_def)
      qed
    qed
  qed
qed

subsection \<open>The loop of the engine\<close>

lemma wf_world_ctx [simp]:
  "wf_world ps (t\<lparr>engine_superstep := n\<rparr>) = wf_world ps t"
  "wf_world ps (t\<lparr>engine_finished := b\<rparr>) = wf_world ps t"
  "wf_world ps (t\<lparr>state_g := sg\<rparr>) = wf_world ps t"
  by (simp_all add: wf_world_def wf_partition_def)

lemma gather_par_ctx:
  "engine_partition_count t' = engine_partition_count t \<Longrightarrow> gather_par t' = gather_par t"
  by (simp add: gather_par_def fun_eq_iff)

lemma world_parts:
  assumes wf: "wf_world ps0 t" and inv: "world_inv ps0 infc s k ps" and par: "par \<in> set ps"
  shows "processor_type par \<noteq> PROCESSOR_MAX"
    and "\<forall>q < length ps0. count (inbox par q) \<le> kernel_threads t (count (inbox par q))"
    and "vertex_count (subgraph par) \<le> kernel_threads t (vertex_count (subgraph par))"
    and "vertex_count (subgraph par) \<noteq> 0 \<longrightarrow> finished (the (algo_state par)) = Engine_finished"
proof -
  have len: "length ps = length ps0" using inv by (simp add: world_inv_def)
  from par obtain p where p: "p < length ps0" "par = ps ! p"
    using len by (auto simp: in_set_conv_nth)
  have wfp: "wf_partition t ps0 p" using wf p(1) by (rule wf_worldD)
  have shape: "same_shape (ps0 ! p) par" using inv p by (simp add: world_inv_def)
  show "processor_type par \<noteq> PROCESSOR_MAX" using wfp shape by (rule wf_shape)
  show "\<forall>q < length ps0. count (inbox par q) \<le> kernel_threads t (count (inbox par q))"
    using wfp shape by (simp add: wf_partition_def same_shape_def)
  show "vertex_count (subgraph par) \<le> kernel_threads t (vertex_count (subgraph par))"
    using wfp shape by (simp add: wf_partition_def same_shape_def)
  show "vertex_count (subgraph par) \<noteq> 0 \<longrightarrow> finished (the (algo_state par)) = Engine_finished"
  proof
    assume "vertex_count (subgraph par) \<noteq> 0"
    then have "vertex_count (subgraph (ps0 ! p)) \<noteq> 0"
      using shape by (simp add: same_shape_def)
    with inv p obtain st where "algo_state par = Some st" "state_ok ps0 infc s k p st"
      by (auto simp: world_inv_def)
    then show "finished (the (algo_state par)) = Engine_finished"
      by (simp add: state_ok_def)
  qed
qed

lemma engine_gather_world:
  assumes wf: "wf_world ps0 t" and inv: "world_inv ps0 infc s k ps"
    and t': "engine_partition_count t' = engine_partition_count t"
      "kernel_threads t' = kernel_threads t"
  shows "engine_gather t' ps = Inr (map (gather_par t) ps)"
proof -
  have pc: "engine_partition_count t = length ps0" using wf by (simp add: wf_world_def)
  have "engine_gather t' ps = Inr (map (gather_par t') ps)"
    using world_parts(1,2)[OF wf inv] pc t' by (intro engine_gather_eq) simp
  then show ?thesis
    by (simp add: gather_par_ctx[OF t'(1)])
qed

lemma gather_communicate:
  assumes wf: "wf_world ps0 t" and inv: "world_inv ps0 infc s k ps"
    and inb: "inboxes_ok ps0 S ps" and S: "S \<subseteq> near ps0 s k"
  shows "world_inv ps0 infc s k (grooves_communicate (map (gather_par t) ps))"
    and "inboxes_ok ps0 (near ps0 s k) (grooves_communicate (map (gather_par t) ps))"
    and "outboxes_ok ps0 (near ps0 s k) (grooves_communicate (map (gather_par t) ps))"
proof -
  have pc: "engine_partition_count t = length ps0" using wf by (simp add: wf_world_def)
  have w: "world_inv ps0 infc s k (map (gather_par t) ps)" using inv by (rule gather_world)
  have i: "inboxes_ok ps0 (near ps0 s k) (map (gather_par t) ps)"
    using wf inv inb S pc by (rule gather_inboxes)
  show "world_inv ps0 infc s k (grooves_communicate (map (gather_par t) ps))"
    using w by (rule communicate_world)
  show "inboxes_ok ps0 (near ps0 s k) (grooves_communicate (map (gather_par t) ps))"
    using w i by (intro communicate_inboxes) (simp_all add: world_inv_def)
  show "outboxes_ok ps0 (near ps0 s k) (grooves_communicate (map (gather_par t) ps))"
    using wf w i by (rule communicate_outboxes)
qed

lemma engine_loop_round:
  "engine_loop (Suc fuel) ps t =
     (case engine_round ps t of
        Inl e \<Rightarrow> Some (Inl e)
      | Inr r \<Rightarrow> if engine_finished (snd r) then Some (Inr r)
                 else engine_loop fuel (fst r) (snd r))"
  by (simp add: engine_round_def Let_def split: sum.splits)

text \<open>The first superstep: the step callback only reports "not finished".\<close>

lemma engine_round_first:
  assumes wf: "wf_world ps0 t" and inv: "world_inv ps0 infc s 0 ps"
    and s: "is_vertex ps0 s"
    and ss: "engine_superstep t = 0"
  shows "engine_round ps t =
           Inr (grooves_communicate (map (gather_par t) ps),
                t\<lparr>engine_superstep := 1, engine_finished := False\<rparr>)"
proof -
  let ?t1 = "t\<lparr>engine_superstep := Suc 0, engine_finished := True\<rparr>"
  let ?t2 = "t\<lparr>engine_superstep := Suc 0, engine_finished := False\<rparr>"
  have len: "length ps = length ps0" using inv by (simp add: world_inv_def)
  from s have p: "fst s < length ps0" "vertex_count (subgraph (ps0 ! fst s)) \<noteq> 0"
    by (auto simp: is_vertex_def)
  with inv have "vertex_count (subgraph (ps ! fst s)) \<noteq> 0"
    by (simp add: world_inv_def same_shape_def)
  moreover have "ps ! fst s \<in> set ps" using p len by simp
  ultimately have ne: "\<not> (\<forall>par \<in> set ps. vertex_count (subgraph par) = 0)" by auto
  have c: "engine_compute ps ?t1 = Inr (ps, ?t2)"
    using engine_compute_first[of ?t1 ps] ne by simp
  have g: "engine_gather ?t2 ps = Inr (map (gather_par t) ps)"
    using wf inv by (rule engine_gather_world) simp_all
  have "engine_round ps t =
        (case engine_compute ps ?t1 of
           Inl e \<Rightarrow> Inl e
         | Inr r \<Rightarrow>
           (case engine_gather (snd r) (fst r) of
              Inl e \<Rightarrow> Inl e
            | Inr ps' \<Rightarrow> Inr (grooves_communicate ps', snd r)))"
    using ss by (simp add: engine_round_def)
  also have "\<dots> = Inr (grooves_communicate (map (gather_par t) ps), ?t2)"
    unfolding c by (simp add: g)
  finally show ?thesis by simp
qed

text \<open>A later superstep: one more level.\<close>

lemma engine_round_step:
  assumes wf: "wf_world ps0 t" and inv: "world_inv ps0 infc s k ps"
    and out: "outboxes_ok ps0 (near ps0 s k) ps" and s: "is_vertex ps0 s"
    and ss: "engine_superstep t = Suc k"
  shows "engine_round ps t =
           Inr (grooves_communicate (map (gather_par t) (map step_par ps)),
                t\<lparr>engine_superstep := Suc (Suc k),
                  engine_finished := (near ps0 s (Suc k) = near ps0 s k)\<rparr>)"
proof -
  let ?t1 = "t\<lparr>engine_superstep := Suc (Suc k), engine_finished := True\<rparr>"
  let ?b = "near ps0 s (Suc k) = near ps0 s k"
  let ?t2 = "t\<lparr>engine_superstep := Suc (Suc k), engine_finished := ?b\<rparr>"
  let ?ps' = "map (gather_par t) (map step_par ps)"
  have q: "(\<forall>par \<in> set ps. quiet_par par) \<longleftrightarrow> ?b"
    using wf inv out s by (rule step_quiet)
  have "engine_compute ps ?t1 =
          Inr (map step_par ps,
               ?t1\<lparr>engine_finished := engine_finished ?t1 \<and> (\<forall>par \<in> set ps. quiet_par par)\<rparr>)"
    using world_parts(1,3,4)[OF wf inv] by (intro engine_compute_eq) simp_all
  then have c: "engine_compute ps ?t1 = Inr (map step_par ps, ?t2)"
    by (simp add: q)
  have inv': "world_inv ps0 infc s (Suc k) (map step_par ps)"
    using wf inv out by (rule step_world)
  have g: "engine_gather ?t2 (map step_par ps) = Inr ?ps'"
    using wf inv' by (rule engine_gather_world) simp_all
  have "engine_round ps t =
        (case engine_compute ps ?t1 of
           Inl e \<Rightarrow> Inl e
         | Inr r \<Rightarrow>
           (case engine_gather (snd r) (fst r) of
              Inl e \<Rightarrow> Inl e
            | Inr ps' \<Rightarrow> Inr (grooves_communicate ps', snd r)))"
    using ss by (simp add: engine_round_def)
  also have "\<dots> = Inr (grooves_communicate ?ps', ?t2)"
    unfolding c by (simp add: g del: map_map)
  finally show ?thesis by (simp del: map_map)
qed

lemma engine_loop_first:
  assumes wf: "wf_world ps0 t" and inv: "world_inv ps0 infc s 0 ps"
    and s: "is_vertex ps0 s"
    and ss: "engine_superstep t = 0"
  shows "engine_loop (Suc fuel) ps t =
           engine_loop fuel (grooves_communicate (map (gather_par t) ps))
             (t\<lparr>engine_superstep := 1, engine_finished := False\<rparr>)"
  unfolding engine_loop_round engine_round_first[OF assms] by simp

lemma engine_loop_step:
  assumes wf: "wf_world ps0 t" and inv: "world_inv ps0 infc s k ps"
    and out: "outboxes_ok ps0 (near ps0 s k) ps" and s: "is_vertex ps0 s"
    and ss: "engine_superstep t = Suc k"
  shows "engine_loop (Suc fuel) ps t =
           (if near ps0 s (Suc k) = near ps0 s k
            then Some (Inr (grooves_communicate (map (gather_par t) (map step_par ps)),
                            t\<lparr>engine_superstep := Suc (Suc k), engine_finished := True\<rparr>))
            else engine_loop fuel (grooves_communicate (map (gather_par t) (map step_par ps)))
                   (t\<lparr>engine_superstep := Suc (Suc k), engine_finished := False\<rparr>))"
  unfolding engine_loop_round engine_round_step[OF assms] by (simp del: map_map)


subsection \<open>Global vertex ids\<close>

lemma concat_nth_inj:
  "distinct (concat xss) \<Longrightarrow> i < length xss \<Longrightarrow> j < length xss \<Longrightarrow>
     x < length (xss ! i) \<Longrightarrow> y < length (xss ! j) \<Longrightarrow> xss ! i ! x = xss ! j ! y \<Longrightarrow>
     i = j \<and> x = y"
proof (induction xss arbitrary: i j)
  case Nil
  then show ?case by simp
next
  case (Cons xs xss)
  from Cons.prems(1) have d: "distinct xs" "distinct (concat xss)"
    "set xs \<inter> set (concat xss) = {}" by simp_all
  show ?case
  proof (cases i)
    case i0: 0
    show ?thesis
    proof (cases j)
      case 0
      with i0 Cons.prems d(1) show ?thesis by (simp add: nth_eq_iff_index_eq)
    next
      case (Suc j')
      with i0 Cons.prems have e: "xs ! x = xss ! j' ! y" "x < length xs" "j' < length xss"
        "y < length (xss ! j')" by simp_all
      have "xs ! x \<in> set xs" using e(2) by simp
      moreover have "xss ! j' ! y \<in> set (concat xss)"
        using e(3,4) by (auto intro!: bexI[of _ "xss ! j'"])
      ultimately show ?thesis using d(3) e(1) by auto
    qed
  next
    case (Suc i')
    show ?thesis
    proof (cases j)
      case 0
      with Suc Cons.prems have e: "xss ! i' ! x = xs ! y" "y < length xs" "i' < length xss"
        "x < length (xss ! i')" by simp_all
      have "xs ! y \<in> set xs" using e(2) by simp
      moreover have "xss ! i' ! x \<in> set (concat xss)"
        using e(3,4) by (auto intro!: bexI[of _ "xss ! i'"])
      ultimately show ?thesis using d(3) e(1) by auto
    next
      case j: (Suc j')
      with Suc Cons.prems d(2) Cons.IH[of i' j'] show ?thesis by simp
    qed
  qed
qed

lemma gid_inj:
  assumes wf: "wf_world ps t" and a: "is_vertex ps a" and b: "is_vertex ps b"
    and eq: "gid ps a = gid ps b"
  shows "a = b"
proof -
  have len: "length (par_map (ps ! p)) = vertex_count (subgraph (ps ! p))" if "p < length ps" for p
    using wf_worldD[OF wf that] by (simp add: wf_partition_def)
  have "distinct (concat (map par_map ps))" using wf by (simp add: wf_world_def)
  moreover have "fst a < length (map par_map ps)" "fst b < length (map par_map ps)"
    using a b by (simp_all add: is_vertex_def)
  moreover have "snd a < length (map par_map ps ! fst a)" "snd b < length (map par_map ps ! fst b)"
    using a b len by (simp_all add: is_vertex_def)
  moreover have "map par_map ps ! fst a ! snd a = map par_map ps ! fst b ! snd b"
    using a b eq by (simp add: is_vertex_def gid_def)
  ultimately have "fst a = fst b \<and> snd a = snd b" by (rule concat_nth_inj)
  then show ?thesis by (simp add: prod_eq_iff)
qed

lemma gid_range:
  assumes wf: "wf_world ps t" and a: "is_vertex ps a"
  shows "gid ps a < engine_vertex_count t"
proof -
  have "length (par_map (ps ! fst a)) = vertex_count (subgraph (ps ! fst a))"
    using wf_worldD[OF wf] a by (simp add: wf_partition_def is_vertex_def)
  with a have "gid ps a \<in> set (par_map (ps ! fst a))" by (simp add: gid_def is_vertex_def)
  moreover have "ps ! fst a \<in> set ps" using a by (simp add: is_vertex_def)
  ultimately have "gid ps a \<in> set (concat (map par_map ps))" by auto
  with wf show ?thesis by (simp add: wf_world_def)
qed

lemma vertices_finite:
  assumes wf: "wf_world ps t"
  shows "finite {a. is_vertex ps a}" and "card {a. is_vertex ps a} \<le> engine_vertex_count t"
proof -
  have inj: "inj_on (gid ps) {a. is_vertex ps a}"
    using gid_inj[OF wf] by (auto simp: inj_on_def)
  have sub: "gid ps ` {a. is_vertex ps a} \<subseteq> {0..<engine_vertex_count t}"
    using gid_range[OF wf] by auto
  show "finite {a. is_vertex ps a}" using inj sub by (rule inj_on_finite) simp
  have "card {a. is_vertex ps a} \<le> card {0..<engine_vertex_count t}"
    using inj sub by (rule card_inj_on_le) simp
  then show "card {a. is_vertex ps a} \<le> engine_vertex_count t" by simp
qed

lemma near_card:
  assumes wf: "wf_world ps t" and s: "is_vertex ps s"
  shows "finite (near ps s k)" and "card (near ps s k) \<le> engine_vertex_count t"
proof -
  have sub: "near ps s k \<subseteq> {a. is_vertex ps a}" using near_is_vertex[OF s] by blast
  show "finite (near ps s k)" using sub vertices_finite(1)[OF wf] by (rule finite_subset)
  have "card (near ps s k) \<le> card {a. is_vertex ps a}"
    using vertices_finite(1)[OF wf] sub by (intro card_mono)
  with vertices_finite(2)[OF wf] show "card (near ps s k) \<le> engine_vertex_count t" by simp
qed

subsection \<open>The loop ends at the last level\<close>

lemma engine_loop_levels:
  assumes s: "is_vertex ps0 s"
  shows "wf_world ps0 t \<Longrightarrow> world_inv ps0 infc s k ps \<Longrightarrow>
         inboxes_ok ps0 (near ps0 s k) ps \<Longrightarrow> outboxes_ok ps0 (near ps0 s k) ps \<Longrightarrow>
         engine_superstep t = Suc k \<Longrightarrow>
         engine_vertex_count t < fuel + card (near ps0 s k) \<Longrightarrow>
         \<exists>ps' K n. engine_loop fuel ps t =
                      Some (Inr (ps', t\<lparr>engine_superstep := n, engine_finished := True\<rparr>)) \<and>
                    world_inv ps0 infc s K ps' \<and> near ps0 s (Suc K) = near ps0 s K"
proof (induction fuel arbitrary: k ps t)
  case 0
  with near_card(2)[OF "0.prems"(1) s, of k] show ?case by simp
next
  case (Suc fuel)
  let ?ps' = "grooves_communicate (map (gather_par t) (map step_par ps))"
  let ?t' = "t\<lparr>engine_superstep := Suc (Suc k), engine_finished := False\<rparr>"
  note wf = Suc.prems(1) and inv = Suc.prems(2) and inb = Suc.prems(3) and out = Suc.prems(4)
  have step: "engine_loop (Suc fuel) ps t =
           (if near ps0 s (Suc k) = near ps0 s k
            then Some (Inr (?ps', t\<lparr>engine_superstep := Suc (Suc k), engine_finished := True\<rparr>))
            else engine_loop fuel ?ps' ?t')"
    using wf inv out s Suc.prems(5) by (rule engine_loop_step)
  have inv1: "world_inv ps0 infc s (Suc k) (map step_par ps)"
    using wf inv out by (rule step_world)
  have inb1: "inboxes_ok ps0 (near ps0 s k) (map step_par ps)"
    using inv inb by (intro step_inboxes) (simp_all add: world_inv_def)
  have mono: "near ps0 s k \<subseteq> near ps0 s (Suc k)" by (rule near_mono) simp
  note gc = gather_communicate[OF wf inv1 inb1 mono]
  show ?case
  proof (cases "near ps0 s (Suc k) = near ps0 s k")
    case True
    have "near ps0 s (Suc (Suc k)) = near ps0 s (Suc k)"
      using near_fixpoint[OF True, of 2] True by simp
    with step True gc(1) show ?thesis by auto
  next
    case False
    with mono have "near ps0 s k \<subset> near ps0 s (Suc k)" by blast
    with near_card(1)[OF wf s] have "card (near ps0 s k) < card (near ps0 s (Suc k))"
      by (intro psubset_card_mono)
    with Suc.prems(6) have fuel: "engine_vertex_count ?t' < fuel + card (near ps0 s (Suc k))"
      by simp
    have "\<exists>ps' K n. engine_loop fuel ?ps' ?t' =
                      Some (Inr (ps', ?t'\<lparr>engine_superstep := n, engine_finished := True\<rparr>)) \<and>
                    world_inv ps0 infc s K ps' \<and> near ps0 s (Suc K) = near ps0 s K"
      using wf gc fuel by (intro Suc.IH) simp_all
    with step False show ?thesis by simp
  qed
qed

subsection \<open>Aggregation\<close>

lemma fold_update_length [simp]:
  "length (fold (\<lambda>i ys. ys[m i := f i]) is xs) = length xs"
  by (induction "is" arbitrary: xs) simp_all

lemma cudaMemcpy_length [simp]: "length (cudaMemcpy dst source n) = length dst"
  by (simp add: cudaMemcpy_def)

lemma cudaMemcpy_nth:
  "n \<le> length dst \<Longrightarrow> v < n \<Longrightarrow> cudaMemcpy dst source n ! v = source ! v"
proof (induction n)
  case 0
  then show ?case by simp
next
  case (Suc n)
  have "cudaMemcpy dst source (Suc n) = (cudaMemcpy dst source n)[n := source ! n]"
    by (simp add: cudaMemcpy_def)
  with Suc show ?case by (cases "v = n") simp_all
qed

lemma fold_scatter:
  assumes "distinct m" and "n \<le> length m" and "\<forall>v < n. m ! v < length c"
  shows "(\<forall>v < n. fold (\<lambda>v ys. ys[m ! v := f v]) [0..<n] c ! (m ! v) = f v) \<and>
         (\<forall>j. j \<notin> set (take n m) \<longrightarrow> fold (\<lambda>v ys. ys[m ! v := f v]) [0..<n] c ! j = c ! j)"
  using assms(2,3)
proof (induction n)
  case 0
  show ?case by simp
next
  case (Suc n)
  let ?F = "\<lambda>n. fold (\<lambda>v ys. ys[m ! v := f v]) [0..<n] c"
  have F: "?F (Suc n) = (?F n)[m ! n := f n]" by simp
  from Suc have IH: "\<forall>v < n. ?F n ! (m ! v) = f v"
    "\<forall>j. j \<notin> set (take n m) \<longrightarrow> ?F n ! j = c ! j" by simp_all
  have n: "n < length m" "m ! n < length c" using Suc.prems by simp_all
  have ne: "m ! v \<noteq> m ! n" if "v < n" for v
    using that n(1) assms(1) by (simp add: nth_eq_iff_index_eq)
  have "\<forall>v < Suc n. ?F (Suc n) ! (m ! v) = f v"
  proof (intro allI impI)
    fix v assume "v < Suc n"
    show "?F (Suc n) ! (m ! v) = f v"
    proof (cases "v = n")
      case True
      then show ?thesis unfolding F using n(2) by simp
    next
      case False
      with \<open>v < Suc n\<close> have "v < n" by simp
      with IH(1) ne[of v] show ?thesis unfolding F by (simp add: nth_list_update)
    qed
  qed
  moreover have "\<forall>j. j \<notin> set (take (Suc n) m) \<longrightarrow> ?F (Suc n) ! j = c ! j"
  proof (intro allI impI)
    fix j assume "j \<notin> set (take (Suc n) m)"
    then have "j \<noteq> m ! n" "j \<notin> set (take n m)"
      using n(1) by (auto simp: take_Suc_conv_app_nth)
    then show "?F (Suc n) ! j = c ! j"
      unfolding F using IH(2) by (simp add: nth_list_update)
  qed
  ultimately show ?case by blast
qed

lemma agg_par_length [simp]: "length (agg_par par c) = length c"
  by (simp add: agg_par_def)

lemma agg_par_nth:
  assumes "distinct (par_map par)" and "length (par_map par) = vertex_count (subgraph par)"
    and "set (par_map par) \<subseteq> {0..<length c}"
  shows "v < vertex_count (subgraph par) \<Longrightarrow>
           agg_par par c ! (par_map par ! v) = cost (the (algo_state par)) ! v"
    and "j \<notin> set (par_map par) \<Longrightarrow> agg_par par c ! j = c ! j"
proof -
  have r: "\<forall>v < vertex_count (subgraph par). par_map par ! v < length c"
    using assms(2,3) by (auto simp: subset_iff)
  note fs = fold_scatter[OF assms(1) _ r, of "\<lambda>v. cost (the (algo_state par)) ! v"]
  show "v < vertex_count (subgraph par) \<Longrightarrow>
           agg_par par c ! (par_map par ! v) = cost (the (algo_state par)) ! v"
    using fs assms(2) by (simp add: agg_par_def)
  show "j \<notin> set (par_map par) \<Longrightarrow> agg_par par c ! j = c ! j"
    using fs assms(2) by (simp add: agg_par_def)
qed

lemma bfs_aggregate_eq:
  assumes "processor_type par \<noteq> PROCESSOR_MAX" and "g_cost (state_g t) = Some c"
    and "processor_type par = PROCESSOR_GPU \<and> vertex_count (subgraph par) \<noteq> 0 \<longrightarrow>
           (\<exists>h. cost_h (state_g t) = Some h \<and> vertex_count (subgraph par) \<le> length h)"
  shows "\<exists>t'. bfs_aggregate par t = Inr t' \<and> g_cost (state_g t') = Some (agg_par par c) \<and>
              (cost_h (state_g t') = cost_h (state_g t) \<or>
               (\<exists>h h'. cost_h (state_g t) = Some h \<and> cost_h (state_g t') = Some h' \<and>
                       length h' = length h))"
proof (cases "vertex_count (subgraph par) = 0")
  case True
  with assms(2) show ?thesis by (simp add: bfs_aggregate_def agg_par_def)
next
  case False
  show ?thesis
  proof (cases "processor_type par")
    case PROCESSOR_CPU
    with False assms(2) show ?thesis
      by (simp add: bfs_aggregate_def bfs_aggregate_copy_def agg_par_def)
  next
    case PROCESSOR_GPU
    with False assms(3) obtain h where h: "cost_h (state_g t) = Some h"
      "vertex_count (subgraph par) \<le> length h" by auto
    let ?h' = "cudaMemcpy h (cost (the (algo_state par))) (vertex_count (subgraph par))"
    have "fold (\<lambda>v ys. ys[par_map par ! v := ?h' ! v]) [0..<vertex_count (subgraph par)] c =
          agg_par par c"
      unfolding agg_par_def using h(2) by (intro fold_cong) (simp_all add: cudaMemcpy_nth)
    with False PROCESSOR_GPU assms(2) h show ?thesis
      by (simp add: bfs_aggregate_def bfs_aggregate_copy_def Let_def)
  next
    case PROCESSOR_MAX
    with assms(1) show ?thesis by simp
  qed
qed

lemma engine_aggregate_eq:
  "\<forall>par \<in> set ps. processor_type par \<noteq> PROCESSOR_MAX \<Longrightarrow> g_cost (state_g t) = Some c \<Longrightarrow>
   \<forall>par \<in> set ps. processor_type par = PROCESSOR_GPU \<and> vertex_count (subgraph par) \<noteq> 0 \<longrightarrow>
     (\<exists>h. cost_h (state_g t) = Some h \<and> vertex_count (subgraph par) \<le> length h) \<Longrightarrow>
   \<exists>t'. engine_aggregate ps t = Inr t' \<and> g_cost (state_g t') = Some (fold agg_par ps c)"
proof (induction ps arbitrary: t c)
  case Nil
  then show ?case by simp
next
  case (Cons par ps)
  from Cons.prems obtain t1 where t1: "bfs_aggregate par t = Inr t1"
    "g_cost (state_g t1) = Some (agg_par par c)"
    "cost_h (state_g t1) = cost_h (state_g t) \<or>
       (\<exists>h h'. cost_h (state_g t) = Some h \<and> cost_h (state_g t1) = Some h' \<and>
               length h' = length h)"
    using bfs_aggregate_eq[of par t c] by auto
  have "\<forall>par \<in> set ps. processor_type par = PROCESSOR_GPU \<and> vertex_count (subgraph par) \<noteq> 0 \<longrightarrow>
     (\<exists>h. cost_h (state_g t1) = Some h \<and> vertex_count (subgraph par) \<le> length h)"
    using Cons.prems(3) t1(3) by auto
  with Cons.prems(1) t1(2)
  have "\<exists>t'. engine_aggregate ps t1 = Inr t' \<and>
             g_cost (state_g t') = Some (fold agg_par ps (agg_par par c))"
    by (intro Cons.IH) simp_all
  with t1(1) show ?case by simp
qed

lemma fold_agg_par_length [simp]: "length (fold agg_par ps c) = length c"
  by (induction ps arbitrary: c) simp_all

lemma fold_agg_par_nth:
  "distinct (concat (map par_map ps)) \<Longrightarrow>
   \<forall>par \<in> set ps. length (par_map par) = vertex_count (subgraph par) \<and>
                  set (par_map par) \<subseteq> {0..<length c} \<Longrightarrow>
   i < length ps \<Longrightarrow> v < vertex_count (subgraph (ps ! i)) \<Longrightarrow>
   fold agg_par ps c ! (par_map (ps ! i) ! v) = cost (the (algo_state (ps ! i))) ! v"
proof (induction ps arbitrary: i rule: rev_induct)
  case Nil
  then show ?case by simp
next
  case (snoc par ps)
  let ?c = "fold agg_par ps c"
  from snoc.prems(1) have d: "distinct (concat (map par_map ps))" "distinct (par_map par)"
    "set (concat (map par_map ps)) \<inter> set (par_map par) = {}" by simp_all
  from snoc.prems(2) have l: "length (par_map par) = vertex_count (subgraph par)"
    "set (par_map par) \<subseteq> {0..<length ?c}" by simp_all
  show ?case
  proof (cases "i < length ps")
    case True
    from snoc.prems(2) True have "length (par_map (ps ! i)) = vertex_count (subgraph (ps ! i))"
      by simp
    with snoc.prems(4) True have "par_map (ps ! i) ! v \<in> set (par_map (ps ! i))"
      by (simp add: nth_append)
    moreover have "ps ! i \<in> set ps" using True by simp
    ultimately have "par_map (ps ! i) ! v \<in> set (concat (map par_map ps))" by auto
    with d(3) have "par_map (ps ! i) ! v \<notin> set (par_map par)" by blast
    then have "agg_par par ?c ! (par_map (ps ! i) ! v) = ?c ! (par_map (ps ! i) ! v)"
      using d(2) l by (intro agg_par_nth(2))
    also have "\<dots> = cost (the (algo_state (ps ! i))) ! v"
      using d(1) snoc.prems(2,4) True by (intro snoc.IH) (simp_all add: nth_append)
    finally show ?thesis using True by (simp add: nth_append)
  next
    case False
    with snoc.prems(3) have i: "i = length ps" by simp
    with snoc.prems(4) have "v < vertex_count (subgraph par)" by simp
    then have "agg_par par ?c ! (par_map par ! v) = cost (the (algo_state par)) ! v"
      using d(2) l by (intro agg_par_nth(1))
    with i show ?thesis by simp
  qed
qed

subsection \<open>The whole run\<close>

lemma wf_source:
  assumes "wf_world ps t" and "source < engine_vertex_count t"
  shows "is_vertex ps (engine_vertex_id_in_partition t source)"
    and "gid ps (engine_vertex_id_in_partition t source) = source"
  using assms by (simp_all add: wf_world_def)

lemma wf_processor:
  assumes wf: "wf_world ps t" and par: "par \<in> set ps"
  shows "processor_type par \<noteq> PROCESSOR_MAX"
    and "processor_type par = PROCESSOR_GPU \<longrightarrow>
           vertex_count (subgraph par) \<le> engine_largest_gpu_partition t"
    and "length (par_map par) = vertex_count (subgraph par)"
proof -
  from par obtain p where p: "p < length ps" "par = ps ! p" by (auto simp: in_set_conv_nth)
  have wfp: "wf_partition t ps p" using wf p(1) by (rule wf_worldD)
  with p(2) show "processor_type par \<noteq> PROCESSOR_MAX"
    and "processor_type par = PROCESSOR_GPU \<longrightarrow>
           vertex_count (subgraph par) \<le> engine_largest_gpu_partition t"
    and "length (par_map par) = vertex_count (subgraph par)"
    by (simp_all add: wf_partition_def)
qed

lemma world_inv_par_map:
  assumes "world_inv ps0 infc s k ps"
  shows "map par_map ps = map par_map ps0" and "map (vertex_count \<circ> subgraph) ps = map (vertex_count \<circ> subgraph) ps0"
  using assms by (auto simp: world_inv_def same_shape_def intro!: nth_equalityI)

lemma levels_general:
  fixes t :: "'w::len totem_t"
  assumes wf: "wf_world ps t" and src: "source < engine_vertex_count t"
    and len: "length c = engine_vertex_count t" and fuel: "engine_vertex_count t < fuel"
    and ns: "engine_vertex_count t \<noteq> 1" "engine_edge_count t \<noteq> 0"
  shows "\<exists>c' w'. bfs_stepwise_hybrid fuel source (Some c) (ps, t) =
                    Some (Inr (SUCCESS, Some c', w')) \<and>
                  length c' = engine_vertex_count t \<and>
                  (\<forall>a. is_vertex ps a \<longrightarrow>
                     c' ! gid ps a =
                       (if \<exists>n. walk (redge ps) (engine_vertex_id_in_partition t source) n a
                        then of_nat (sdist ps (engine_vertex_id_in_partition t source) a)
                        else INF_COST t))"
proof -
  let ?s = "engine_vertex_id_in_partition t source"
  let ?t1 = "t\<lparr>state_g := (state_g t)\<lparr>g_cost := Some c, src := ?s\<rparr>\<rparr>"
  let ?t2 = "if engine_largest_gpu_partition ?t1 \<noteq> 0
             then ?t1\<lparr>state_g := (state_g ?t1)
                    \<lparr>cost_h := Some (totem_malloc (engine_largest_gpu_partition ?t1))\<rparr>\<rparr>
             else ?t1"
  have s: "is_vertex ps ?s" and gs: "gid ps ?s = source"
    using wf src by (rule wf_source)+
  have wf2: "wf_world ps ?t2" using wf by simp
  have g2: "g_cost (state_g ?t2) = Some c" and src2: "src (state_g ?t2) = ?s"
    and pc2: "engine_partition_count ?t2 = length ps" and inf2: "INF_COST ?t2 = INF_COST t"
    and n2: "engine_vertex_count ?t2 = engine_vertex_count t"
    and h2: "engine_largest_gpu_partition t \<noteq> 0 \<longrightarrow>
               (\<exists>h. cost_h (state_g ?t2) = Some h \<and> length h = engine_largest_gpu_partition t)"
    using wf by (simp_all add: wf_world_def totem_malloc_def)
  obtain t2 where t2: "t2 = ?t2" by simp
  note wf2 = wf2[folded t2] and g2 = g2[folded t2] and src2 = src2[folded t2]
    and pc2 = pc2[folded t2] and inf2 = inf2[folded t2] and n2 = n2[folded t2]
    and h2 = h2[folded t2]
  have run: "bfs_stepwise_hybrid fuel source (Some c) (ps, t) =
          (case engine_execute fuel ps t2 of
             None \<Rightarrow> None
           | Some (Inl e) \<Rightarrow> Some (Inl e)
           | Some (Inr r') \<Rightarrow>
               Some (Inr (SUCCESS, g_cost (state_g (snd r')),
                          (fst r', (snd r')\<lparr>state_g := \<lparr>g_cost = None, cost_h = None, src = (0, 0)\<rparr>\<rparr>))))"
    unfolding t2 using src ns
    by (simp add: bfs_stepwise_hybrid_def check_special_cases_def Let_def)
  let ?ps1 = "map (init_par t2) ps"
  have init: "engine_init t2 ps = Inr ?ps1"
    using wf_processor(1)[OF wf] by (intro engine_init_eq) simp
  have inv0: "world_inv ps (INF_COST t) s0 0 ?ps1" if "s0 = ?s" for s0
    using init_world[OF wf2 src2 _ pc2] s that by (simp add: inf2)
  have inb0: "inboxes_ok ps {} ?ps1" using wf2 pc2 by (rule init_inboxes)
  let ?t3 = "t2\<lparr>engine_superstep := 0\<rparr>"
  have wf3: "wf_world ps ?t3" using wf2 by simp
  let ?ps2 = "grooves_communicate (map (gather_par ?t3) ?ps1)"
  let ?t4 = "?t3\<lparr>engine_superstep := 1, engine_finished := False\<rparr>"
  from fuel obtain f where f: "fuel = Suc f" by (cases fuel) simp_all
  have first: "engine_loop (Suc f) ?ps1 ?t3 = engine_loop f ?ps2 ?t4"
    using wf3 inv0[OF refl] s by (rule engine_loop_first) simp
  have gc: "world_inv ps (INF_COST t) ?s 0 ?ps2"
    "inboxes_ok ps (near ps ?s 0) ?ps2" "outboxes_ok ps (near ps ?s 0) ?ps2"
    using gather_communicate[OF wf3 inv0[OF refl] inb0] by simp_all
  have wf4: "wf_world ps ?t4" using wf2 by simp
  have "engine_vertex_count ?t4 < f + card (near ps ?s 0)"
    using fuel f n2 by simp
  with engine_loop_levels[OF s wf4 gc, of f]
  obtain ps' K n where loop: "engine_loop f ?ps2 ?t4 =
        Some (Inr (ps', ?t4\<lparr>engine_superstep := n, engine_finished := True\<rparr>))"
    and invK: "world_inv ps (INF_COST t) ?s K ps'"
    and fixp: "near ps ?s (Suc K) = near ps ?s K"
    by auto
  let ?t5 = "?t4\<lparr>engine_superstep := n, engine_finished := True\<rparr>"
  have wf5: "wf_world ps ?t5" using wf2 by simp
  have proc: "\<forall>par \<in> set ps'. processor_type par \<noteq> PROCESSOR_MAX"
    using world_parts(1)[OF wf5 invK] by blast
  have gpu: "\<forall>par \<in> set ps'. processor_type par = PROCESSOR_GPU \<and> vertex_count (subgraph par) \<noteq> 0 \<longrightarrow>
     (\<exists>h. cost_h (state_g ?t5) = Some h \<and> vertex_count (subgraph par) \<le> length h)"
  proof (intro ballI impI)
    fix par assume par: "par \<in> set ps'"
      and gp: "processor_type par = PROCESSOR_GPU \<and> vertex_count (subgraph par) \<noteq> 0"
    have len': "length ps' = length ps" using invK by (simp add: world_inv_def)
    from par obtain p where p: "p < length ps" "par = ps' ! p"
      using len' by (auto simp: in_set_conv_nth)
    have shape: "same_shape (ps ! p) par" using invK p by (simp add: world_inv_def)
    have "ps ! p \<in> set ps" using p by simp
    from wf_processor(2)[OF wf this] shape gp
    have le: "vertex_count (subgraph par) \<le> engine_largest_gpu_partition t"
      by (simp add: same_shape_def)
    with gp have "engine_largest_gpu_partition t \<noteq> 0" by auto
    with h2 le show "\<exists>h. cost_h (state_g ?t5) = Some h \<and> vertex_count (subgraph par) \<le> length h"
      by auto
  qed
  have "g_cost (state_g ?t5) = Some c" using g2 by simp
  with engine_aggregate_eq[OF proc _ gpu]
  obtain t6 where agg: "engine_aggregate ps' ?t5 = Inr t6"
    and c6: "g_cost (state_g t6) = Some (fold agg_par ps' c)"
    by blast
  have fin: "engine_finalize ps' = Inr (map finalize_par ps')"
    using proc by (rule engine_finalize_eq)
  have exec: "engine_execute fuel ps t2 = Some (Inr (map finalize_par ps', t6))"
    unfolding engine_execute_def init f
    by (simp only: first loop sum.case option.case fst_conv snd_conv agg fin)
  let ?c' = "fold agg_par ps' c"
  have res: "bfs_stepwise_hybrid fuel source (Some c) (ps, t) =
          Some (Inr (SUCCESS, Some ?c',
                     (map finalize_par ps', t6\<lparr>state_g := \<lparr>g_cost = None, cost_h = None, src = (0, 0)\<rparr>\<rparr>)))"
    unfolding run exec by (simp add: c6)
  have pm: "map par_map ps' = map par_map ps" using invK by (rule world_inv_par_map)
  have d: "distinct (concat (map par_map ps'))"
    unfolding pm using wf by (simp add: wf_world_def)
  have rng: "\<forall>par \<in> set ps'. length (par_map par) = vertex_count (subgraph par) \<and>
                  set (par_map par) \<subseteq> {0..<length c}"
  proof
    fix par assume par: "par \<in> set ps'"
    have len': "length ps' = length ps" using invK by (simp add: world_inv_def)
    from par obtain p where p: "p < length ps" "par = ps' ! p"
      using len' by (auto simp: in_set_conv_nth)
    have shape: "same_shape (ps ! p) par" using invK p by (simp add: world_inv_def)
    have in0: "ps ! p \<in> set ps" using p by simp
    have "set (par_map (ps ! p)) \<subseteq> set (concat (map par_map ps))" using in0 by auto
    also have "\<dots> = {0..<length c}" using wf len by (simp add: wf_world_def)
    finally show "length (par_map par) = vertex_count (subgraph par) \<and>
                  set (par_map par) \<subseteq> {0..<length c}"
      using wf_processor(3)[OF wf in0] shape by (simp add: same_shape_def)
  qed
  have val: "?c' ! gid ps a =
               (if \<exists>n. walk (redge ps) ?s n a then of_nat (sdist ps ?s a) else INF_COST t)"
    if a: "is_vertex ps a" for a
  proof -
    obtain p v where pv: "a = (p, v)" by (cases a)
    with a have p: "p < length ps" and v: "v < vertex_count (subgraph (ps ! p))"
      by (simp_all add: is_vertex_def)
    have len': "length ps' = length ps" using invK by (simp add: world_inv_def)
    have shape: "same_shape (ps ! p) (ps' ! p)" using invK p by (simp add: world_inv_def)
    from v have ne: "vertex_count (subgraph (ps ! p)) \<noteq> 0" by simp
    with invK p obtain st where st: "algo_state (ps' ! p) = Some st"
      "state_ok ps (INF_COST t) ?s K p st" by (auto simp: world_inv_def)
    have "?c' ! gid ps a = ?c' ! (par_map (ps' ! p) ! v)"
      using shape pv by (simp add: gid_def same_shape_def)
    also have "\<dots> = cost (the (algo_state (ps' ! p))) ! v"
      using d rng p v shape len' by (intro fold_agg_par_nth) (simp_all add: same_shape_def)
    also have "\<dots> = (if (p, v) \<in> near ps ?s K then of_nat (sdist ps ?s (p, v)) else INF_COST t)"
      using st v by (simp add: state_ok_def)
    also have "(p, v) \<in> near ps ?s K \<longleftrightarrow> (\<exists>n. walk (redge ps) ?s n (p, v))"
      using near_fixpoint_all[OF fixp] by (auto simp: near_def)
    finally show ?thesis by (simp add: pv)
  qed
  from res val len show ?thesis by auto
qed

subsection \<open>The example worlds are well formed\<close>

lemma ex_wf: "wf_world [ex_par0, ex_par1] ex_totem"
  by code_simp

lemma ex_undirected: "undirected [ex_par0, ex_par1]"
  by code_simp


subsection \<open>The special cases\<close>

lemma no_edges:
  assumes "all_edges ps = []"
  shows "\<not> pedge ps a b"
proof
  assume "pedge ps a b"
  then have a: "fst a < length ps" "snd a < vertex_count (subgraph (ps ! fst a))"
    and ne: "nbr_list (subgraph (ps ! fst a)) (snd a) \<noteq> []"
    by (auto simp: pedge_def is_vertex_def)
  from a(1) have "ps ! fst a \<in> set ps" by simp
  with assms a(2) have "nbr_list (subgraph (ps ! fst a)) (snd a) = []"
    by (auto simp: all_edges_def)
  with ne show False by simp
qed

lemma no_edges_walk:
  assumes "all_edges ps = []" and "walk (redge ps) s n a"
  shows "a = s"
  using assms(2) no_edges[OF assms(1)] by (cases rule: walk.cases) (simp_all add: redge_def)

lemma levels_single:
  fixes t :: "'w::len totem_t"
  assumes wf: "wf_world ps t" and src: "source < engine_vertex_count t"
    and len: "length c = engine_vertex_count t"
    and one: "engine_vertex_count t = 1"
  shows "\<exists>c' w'. bfs_stepwise_hybrid fuel source (Some c) (ps, t) =
                    Some (Inr (SUCCESS, Some c', w')) \<and>
                  length c' = engine_vertex_count t \<and>
                  (\<forall>a. is_vertex ps a \<longrightarrow>
                     c' ! gid ps a =
                       (if \<exists>n. walk (redge ps) (engine_vertex_id_in_partition t source) n a
                        then of_nat (sdist ps (engine_vertex_id_in_partition t source) a)
                        else INF_COST t))"
proof -
  let ?s = "engine_vertex_id_in_partition t source"
  have s: "is_vertex ps ?s" and gs: "gid ps ?s = source"
    using wf src by (rule wf_source)+
  have s0: "source = 0" using src one by simp
  have res: "bfs_stepwise_hybrid fuel source (Some c) (ps, t) =
               Some (Inr (SUCCESS, Some (c[0 := 0]), (ps, t)))"
    using src one by (simp add: bfs_stepwise_hybrid_def check_special_cases_def)
  have val: "c[0 := 0] ! gid ps a =
               (if \<exists>n. walk (redge ps) ?s n a then of_nat (sdist ps ?s a) else INF_COST t)"
    if a: "is_vertex ps a" for a
  proof -
    have "gid ps a = 0" using gid_range[OF wf a] one by simp
    with gs s0 have "a = ?s" using gid_inj[OF wf a s] by simp
    moreover have "\<exists>n. walk (redge ps) ?s n ?s" by (rule exI[of _ 0]) simp
    ultimately show ?thesis using gs s0 len one by simp
  qed
  from res val len show ?thesis by auto
qed

lemma levels_no_edges:
  fixes t :: "'w::len totem_t"
  assumes wf: "wf_world ps t" and src: "source < engine_vertex_count t"
    and len: "length c = engine_vertex_count t"
    and ns: "engine_vertex_count t \<noteq> 1" "engine_edge_count t = 0"
  shows "\<exists>c' w'. bfs_stepwise_hybrid fuel source (Some c) (ps, t) =
                    Some (Inr (SUCCESS, Some c', w')) \<and>
                  length c' = engine_vertex_count t \<and>
                  (\<forall>a. is_vertex ps a \<longrightarrow>
                     c' ! gid ps a =
                       (if \<exists>n. walk (redge ps) (engine_vertex_id_in_partition t source) n a
                        then of_nat (sdist ps (engine_vertex_id_in_partition t source) a)
                        else INF_COST t))"
proof -
  let ?s = "engine_vertex_id_in_partition t source"
  let ?c' = "(replicate (engine_vertex_count t) (INF_COST t))[source := 0]"
  have s: "is_vertex ps ?s" and gs: "gid ps ?s = source"
    using wf src by (rule wf_source)+
  have e: "all_edges ps = []" using wf ns(2) by (simp add: wf_world_def)
  have res: "bfs_stepwise_hybrid fuel source (Some c) (ps, t) =
               Some (Inr (SUCCESS, Some ?c', (ps, t)))"
    using src ns len
    by (simp add: bfs_stepwise_hybrid_def check_special_cases_def totem_memset_replicate)
  have val: "?c' ! gid ps a =
               (if \<exists>n. walk (redge ps) ?s n a then of_nat (sdist ps ?s a) else INF_COST t)"
    if a: "is_vertex ps a" for a
  proof (cases "a = ?s")
    case True
    moreover have "\<exists>n. walk (redge ps) ?s n ?s" by (rule exI[of _ 0]) simp
    ultimately show ?thesis using gs src by simp
  next
    case False
    then have "gid ps a \<noteq> source" using gid_inj[OF wf a s] gs by auto
    moreover have "\<not> (\<exists>n. walk (redge ps) ?s n a)"
      using no_edges_walk[OF e] False by blast
    ultimately show ?thesis using gid_range[OF wf a] by simp
  qed
  from res val show ?thesis by auto
qed

lemma levels:
  fixes t :: "'w::len totem_t"
  assumes wf: "wf_world ps t" and src: "source < engine_vertex_count t"
    and len: "length c = engine_vertex_count t" and fuel: "engine_vertex_count t < fuel"
  shows "\<exists>c' w'. bfs_stepwise_hybrid fuel source (Some c) (ps, t) =
                    Some (Inr (SUCCESS, Some c', w')) \<and>
                  length c' = engine_vertex_count t \<and>
                  (\<forall>a. is_vertex ps a \<longrightarrow>
                     c' ! gid ps a =
                       (if \<exists>n. walk (redge ps) (engine_vertex_id_in_partition t source) n a
                        then of_nat (sdist ps (engine_vertex_id_in_partition t source) a)
                        else INF_COST t))"
proof (cases "engine_vertex_count t = 1")
  case True
  with wf src len show ?thesis by (rule levels_single)
next
  case False
  show ?thesis
  proof (cases "engine_edge_count t = 0")
    case True
    with wf src len False show ?thesis by (rule levels_no_edges)
  next
    case e: False
    with wf src len fuel False show ?thesis by (rule levels_general)
  qed
qed

lemma undirected_sym:
  assumes "undirected ps" and "pedge ps a b"
  shows "pedge ps b a"
proof -
  obtain p v where pv: "a = (p, v)" by (cases a)
  with assms(2) obtain e where p: "p < length ps" and v: "v < vertex_count (subgraph (ps ! p))"
    and e: "e \<in> set (nbr_list (subgraph (ps ! p)) v)" "b = target ps p e"
    by (auto simp: pedge_def is_vertex_def)
  from assms(1) p v e(1) have "pedge ps (target ps p e) (p, v)"
    unfolding undirected_def by auto
  with e(2) pv show ?thesis by simp
qed

lemma undirected_redge: "undirected ps \<Longrightarrow> redge ps = pedge ps"
  using undirected_sym[of ps] by (auto simp: redge_def fun_eq_iff)

lemma sdist_shortest:
  assumes "walk (redge ps) s n a"
  shows "shortest (redge ps) s a (sdist ps s a)"
  unfolding shortest_def sdist_def
  using assms by (auto intro: LeastI Least_le)

subsection \<open>The supersteps of a run\<close>

lemma supersteps_0:
  assumes wf: "wf_world ps t" and s: "is_vertex ps (src (state_g t))"
  shows "engine_supersteps 0 ps t = Inr (map (init_par t) ps, t\<lparr>engine_superstep := 0\<rparr>)"
    and "world_inv ps (INF_COST t) (src (state_g t)) 0 (map (init_par t) ps)"
    and "inboxes_ok ps {} (map (init_par t) ps)"
proof -
  have pc: "engine_partition_count t = length ps" using wf by (simp add: wf_world_def)
  have "engine_init t ps = Inr (map (init_par t) ps)"
    using wf_processor(1)[OF wf] by (intro engine_init_eq) simp
  then show "engine_supersteps 0 ps t = Inr (map (init_par t) ps, t\<lparr>engine_superstep := 0\<rparr>)"
    by simp
  show "world_inv ps (INF_COST t) (src (state_g t)) 0 (map (init_par t) ps)"
    using wf refl s pc by (rule init_world)
  show "inboxes_ok ps {} (map (init_par t) ps)" using wf pc by (rule init_inboxes)
qed

lemma supersteps_inv:
  assumes wf: "wf_world ps t" and s: "is_vertex ps (src (state_g t))"
  shows "\<exists>psk b. engine_supersteps (Suc k) ps t =
                    Inr (psk, t\<lparr>engine_superstep := Suc k, engine_finished := b\<rparr>) \<and>
                  (b \<longleftrightarrow> k \<noteq> 0 \<and> near ps (src (state_g t)) k = near ps (src (state_g t)) (k - 1)) \<and>
                  world_inv ps (INF_COST t) (src (state_g t)) k psk \<and>
                  inboxes_ok ps (near ps (src (state_g t)) k) psk \<and>
                  outboxes_ok ps (near ps (src (state_g t)) k) psk"
proof (induction k)
  case 0
  let ?s = "src (state_g t)"
  let ?t0 = "t\<lparr>engine_superstep := 0\<rparr>"
  let ?ps1 = "map (init_par t) ps"
  note z = supersteps_0[OF wf s]
  have wf0: "wf_world ps ?t0" using wf by simp
  have r: "engine_round ?ps1 ?t0 =
             Inr (grooves_communicate (map (gather_par ?t0) ?ps1),
                  ?t0\<lparr>engine_superstep := 1, engine_finished := False\<rparr>)"
    using wf0 z(2) s by (rule engine_round_first) simp
  have gc: "world_inv ps (INF_COST t) ?s 0 (grooves_communicate (map (gather_par ?t0) ?ps1))"
    "inboxes_ok ps (near ps ?s 0) (grooves_communicate (map (gather_par ?t0) ?ps1))"
    "outboxes_ok ps (near ps ?s 0) (grooves_communicate (map (gather_par ?t0) ?ps1))"
    using gather_communicate[OF wf0 z(2) z(3)] by simp_all
  have "engine_supersteps (Suc 0) ps t = engine_round ?ps1 ?t0"
    by (simp only: engine_supersteps.simps(2) z(1) sum.case fst_conv snd_conv)
  then have "engine_supersteps (Suc 0) ps t =
          Inr (grooves_communicate (map (gather_par ?t0) ?ps1),
               t\<lparr>engine_superstep := Suc 0, engine_finished := False\<rparr>)"
    by (simp add: r del: map_map)
  with gc show ?case by blast
next
  case (Suc k)
  let ?s = "src (state_g t)"
  from Suc obtain psk b where
    run: "engine_supersteps (Suc k) ps t =
            Inr (psk, t\<lparr>engine_superstep := Suc k, engine_finished := b\<rparr>)"
    and inv: "world_inv ps (INF_COST t) ?s k psk"
    and inb: "inboxes_ok ps (near ps ?s k) psk"
    and out: "outboxes_ok ps (near ps ?s k) psk"
    by blast
  let ?tk = "t\<lparr>engine_superstep := Suc k, engine_finished := b\<rparr>"
  let ?ps' = "grooves_communicate (map (gather_par ?tk) (map step_par psk))"
  have wfk: "wf_world ps ?tk" using wf by simp
  have r: "engine_round psk ?tk =
             Inr (?ps', ?tk\<lparr>engine_superstep := Suc (Suc k),
                              engine_finished := (near ps ?s (Suc k) = near ps ?s k)\<rparr>)"
    using wfk inv out s by (rule engine_round_step) simp
  have inv1: "world_inv ps (INF_COST t) ?s (Suc k) (map step_par psk)"
    using wfk inv out by (rule step_world)
  have inb1: "inboxes_ok ps (near ps ?s k) (map step_par psk)"
    using inv inb by (intro step_inboxes) (simp_all add: world_inv_def)
  have mono: "near ps ?s k \<subseteq> near ps ?s (Suc k)" by (rule near_mono) simp
  note gc = gather_communicate[OF wfk inv1 inb1 mono]
  have "engine_supersteps (Suc (Suc k)) ps t = engine_round psk ?tk"
    by (simp only: engine_supersteps.simps(2)[of "Suc k"] run sum.case fst_conv snd_conv)
  then have "engine_supersteps (Suc (Suc k)) ps t =
          Inr (?ps', t\<lparr>engine_superstep := Suc (Suc k),
                        engine_finished := (near ps ?s (Suc k) = near ps ?s k)\<rparr>)"
    by (simp add: r del: map_map)
  with gc show ?case by (intro exI[of _ ?ps'] exI[of _ "near ps ?s (Suc k) = near ps ?s k"]) simp
qed

lemma wf_target:
  assumes wf: "wf_world ps t" and e: "pedge ps a b"
  shows "is_vertex ps b"
proof -
  obtain p v where pv: "a = (p, v)" by (cases a)
  with e obtain x where p: "p < length ps" and v: "v < vertex_count (subgraph (ps ! p))"
    and x: "x \<in> set (nbr_list (subgraph (ps ! p)) v)" "b = target ps p x"
    by (auto simp: pedge_def is_vertex_def)
  have wfp: "wf_partition t ps p" using wf p by (rule wf_worldD)
  have we: "wf_edge ps p x" using wfp v x(1) by (rule wf_partition_edge)
  show ?thesis
  proof (cases "GET_PARTITION_ID x = p")
    case True
    with we x(2) p show ?thesis by (simp add: wf_edge_def target_def is_vertex_def)
  next
    case False
    let ?q = "GET_PARTITION_ID x"
    from we False have q: "?q < length ps" "GET_VERTEX_ID x < count (inbox (ps ! ?q) p)"
      by (simp_all add: wf_edge_def)
    have "wf_partition t ps ?q" using wf q(1) by (rule wf_worldD)
    then have "rmt_nbrs (inbox (ps ! ?q) p) ! GET_VERTEX_ID x < vertex_count (subgraph (ps ! ?q))"
      using p False q(2) by (intro wf_inbox_vertex) auto
    with False q(1) x(2) show ?thesis by (simp add: target_def is_vertex_def)
  qed
qed

lemma world_inv_at:
  assumes inv: "world_inv ps infc s k psk" and a: "is_vertex ps a"
  shows "visited_at psk a \<longleftrightarrow> a \<in> near ps s k"
    and "cost_at psk a = (if a \<in> near ps s k then of_nat (sdist ps s a) else infc)"
    and "level_at psk (fst a) = of_nat k"
proof -
  obtain p v where pv: "a = (p, v)" by (cases a)
  with a have p: "p < length ps" and v: "v < vertex_count (subgraph (ps ! p))"
    by (simp_all add: is_vertex_def)
  then have "vertex_count (subgraph (ps ! p)) \<noteq> 0" by simp
  with inv p obtain st where st: "algo_state (psk ! p) = Some st" "state_ok ps infc s k p st"
    by (auto simp: world_inv_def)
  show "visited_at psk a \<longleftrightarrow> a \<in> near ps s k"
    using st by (simp add: visited_at_def pv state_ok_def bitmap_is_set_def)
  show "cost_at psk a = (if a \<in> near ps s k then of_nat (sdist ps s a) else infc)"
    using st v by (simp add: cost_at_def pv state_ok_def)
  show "level_at psk (fst a) = of_nat k"
    using st by (simp add: level_at_def pv state_ok_def)
qed

lemma step_phase_run:
  fixes t :: "'w::len totem_t"
  assumes wf: "wf_world ps t" and s: "is_vertex ps (src (state_g t))"
    and a: "is_vertex ps a" and j: "1 \<le> j"
  shows "\<exists>ps_i t_i ps_j t_j ps_n t_n.
           engine_supersteps (j - 1) ps t = Inr (ps_i, t_i) \<and>
           engine_supersteps j ps t = Inr (ps_j, t_j) \<and>
           engine_supersteps (Suc j) ps t = Inr (ps_n, t_n) \<and>
           engine_superstep t_j = j \<and> engine_superstep t_n = Suc j \<and>
           (if visited_at ps_j a
            then visited_at ps_n a \<and> cost_at ps_n a = cost_at ps_j a
            else if \<exists>u. pedge ps a u \<and> visited_at ps_j u \<and> (j = 1 \<or> \<not> visited_at ps_i u)
            then has_frontier_nbr (ps_j ! fst a)
                   (stepwise_state (ps_j ! fst a) (the (algo_state (ps_j ! fst a)))) (snd a) \<and>
                 \<not> engine_finished t_j \<and>
                 visited_at ps_n a \<and> cost_at ps_n a = level_at ps_j (fst a) + 1 \<and>
                 \<not> engine_finished t_n
            else \<not> has_frontier_nbr (ps_j ! fst a)
                     (stepwise_state (ps_j ! fst a) (the (algo_state (ps_j ! fst a)))) (snd a) \<and>
                 \<not> visited_at ps_n a \<and> cost_at ps_n a = cost_at ps_j a)"
proof -
  let ?s = "src (state_g t)"
  let ?N = "near ps ?s"
  from j obtain k where k: "j = Suc k" by (cases j) simp_all
  obtain p x where px: "a = (p, x)" by (cases a)
  with a have p: "p < length ps" and x: "x < vertex_count (subgraph (ps ! p))"
    by (simp_all add: is_vertex_def)
  obtain ps_i t_i where
    ri: "engine_supersteps k ps t = Inr (ps_i, t_i)"
    and invi: "world_inv ps (INF_COST t) ?s (k - 1) ps_i"
  proof (cases k)
    case 0
    with supersteps_0[OF wf s] that show ?thesis by simp
  next
    case (Suc k')
    with supersteps_inv[OF wf s, of k'] that show ?thesis by auto
  qed
  from supersteps_inv[OF wf s, of k] obtain ps_j bj where
    rj: "engine_supersteps (Suc k) ps t =
           Inr (ps_j, t\<lparr>engine_superstep := Suc k, engine_finished := bj\<rparr>)"
    and bj: "bj \<longleftrightarrow> k \<noteq> 0 \<and> ?N k = ?N (k - 1)"
    and invj: "world_inv ps (INF_COST t) ?s k ps_j"
    and outj: "outboxes_ok ps (?N k) ps_j"
    by blast
  from supersteps_inv[OF wf s, of "Suc k"] obtain ps_n bn where
    rn: "engine_supersteps (Suc (Suc k)) ps t =
           Inr (ps_n, t\<lparr>engine_superstep := Suc (Suc k), engine_finished := bn\<rparr>)"
    and bn: "bn \<longleftrightarrow> ?N (Suc k) = ?N k"
    and invn: "world_inv ps (INF_COST t) ?s (Suc k) ps_n"
    by auto
  let ?tj = "t\<lparr>engine_superstep := Suc k, engine_finished := bj\<rparr>"
  let ?tn = "t\<lparr>engine_superstep := Suc (Suc k), engine_finished := bn\<rparr>"
  note atj = world_inv_at[OF invj] and atn = world_inv_at[OF invn] and ati = world_inv_at[OF invi]
  have mono: "?N k \<subseteq> ?N (Suc k)" by (rule near_mono) simp
  have entered: "visited_at ps_j u \<and> (j = 1 \<or> \<not> visited_at ps_i u) \<longleftrightarrow>
                   u \<in> ?N k - near_before ps ?s k"
    if u: "pedge ps a u" for u
  proof -
    have iu: "is_vertex ps u" using wf u by (rule wf_target)
    show ?thesis
      using atj(1)[OF iu] ati(1)[OF iu] k by (cases k) (auto simp: near_before_def)
  qed
  have nb: "(\<exists>u. pedge ps a u \<and> visited_at ps_j u \<and> (j = 1 \<or> \<not> visited_at ps_i u)) \<longleftrightarrow>
              (\<exists>u. pedge ps a u \<and> u \<in> ?N k - near_before ps ?s k)"
    using entered by blast
  let ?par = "ps_j ! p"
  have wfp: "wf_partition t ps p" using wf p by (rule wf_worldD)
  have shape: "same_shape (ps ! p) ?par" using invj p by (simp add: world_inv_def)
  from x have "vertex_count (subgraph (ps ! p)) \<noteq> 0" by simp
  with invj p obtain st where st: "algo_state ?par = Some st"
    "state_ok ps (INF_COST t) ?s k p st" by (auto simp: world_inv_def)
  have o: "outbox_ok ps (?N k) p ?par" using outj p by (simp add: outboxes_ok_def)
  have sf: "step_found ?par (stepwise_state ?par st) = {v. (p, v) \<in> ?N (Suc k) - ?N k}"
    using wfp p shape st(2) o by (rule step_found_level)
  have pid: "par_id ?par = p" and g: "subgraph ?par = subgraph (ps ! p)"
    using wfp shape by (rule wf_shape)+
  have vis: "visited st p = {v. (p, v) \<in> ?N k}" using st(2) by (simp add: state_ok_def)
  have "x \<in> step_found ?par (stepwise_state ?par st) \<longleftrightarrow>
          a \<notin> ?N k \<and> has_frontier_nbr ?par (stepwise_state ?par st) x"
    using x by (simp add: step_found_def found_def g pid vis bitmap_is_set_def px)
  with sf have scan: "a \<notin> ?N k \<Longrightarrow>
      has_frontier_nbr ?par (stepwise_state ?par st) x \<longleftrightarrow> a \<in> ?N (Suc k)"
    by (simp add: px)
  have new: "a \<in> ?N (Suc k) - ?N k \<longleftrightarrow>
               a \<notin> ?N k \<and> (\<exists>u. pedge ps a u \<and> u \<in> ?N k - near_before ps ?s k)"
    by (rule new_level_iff)
  have body: "if visited_at ps_j a
            then visited_at ps_n a \<and> cost_at ps_n a = cost_at ps_j a
            else if \<exists>u. pedge ps a u \<and> visited_at ps_j u \<and> (j = 1 \<or> \<not> visited_at ps_i u)
            then has_frontier_nbr ?par (stepwise_state ?par (the (algo_state ?par))) x \<and>
                 \<not> engine_finished ?tj \<and>
                 visited_at ps_n a \<and> cost_at ps_n a = level_at ps_j (fst a) + 1 \<and>
                 \<not> engine_finished ?tn
            else \<not> has_frontier_nbr ?par (stepwise_state ?par (the (algo_state ?par))) x \<and>
                 \<not> visited_at ps_n a \<and> cost_at ps_n a = cost_at ps_j a"
  proof (cases "a \<in> ?N k")
    case True
    with mono have "a \<in> ?N (Suc k)" by blast
    with True show ?thesis by (simp add: atj[OF a] atn[OF a])
  next
    case False
    show ?thesis
    proof (cases "\<exists>u. pedge ps a u \<and> u \<in> ?N k - near_before ps ?s k")
      case True
      with new False have an: "a \<in> ?N (Suc k)" by blast
      with False have d: "sdist ps ?s a = Suc k" by (intro sdist_new)
      from an False have "?N (Suc k) \<noteq> ?N k" by blast
      then have "\<not> bn" by (simp add: bn)
      moreover have "\<not> bj"
      proof (cases k)
        case 0
        then show ?thesis by (simp add: bj)
      next
        case (Suc k')
        from True obtain u where "u \<in> ?N k" "u \<notin> near_before ps ?s k" by blast
        with Suc have "?N k \<noteq> ?N (k - 1)" by auto
        then show ?thesis by (simp add: bj)
      qed
      ultimately show ?thesis
        using True False an d scan nb
        by (simp add: atj[OF a] atn[OF a] st(1))
    next
      case nn: False
      with new False have "a \<notin> ?N (Suc k)" by blast
      with nn False scan nb show ?thesis
        by (simp add: atj[OF a] atn[OF a] st(1))
    qed
  qed
  have "engine_supersteps (j - 1) ps t = Inr (ps_i, t_i)" using ri k by simp
  moreover have "engine_supersteps j ps t = Inr (ps_j, ?tj)" using rj k by simp
  moreover have "engine_supersteps (Suc j) ps t = Inr (ps_n, ?tn)" using rn k by simp
  moreover have "engine_superstep ?tj = j" "engine_superstep ?tn = Suc j" using k by simp_all
  ultimately show ?thesis
    using body unfolding px fst_conv snd_conv by blast
qed

lemma step_phase_call:
  assumes "2 \<le> engine_superstep t"
    and "v < vertex_count (subgraph par)"
    and "processor_type par \<noteq> PROCESSOR_MAX"
    and "algo_state par = Some state"
    and "length (cost state) = vertex_count (subgraph par)"
    and "finished state = Engine_finished"
    and "vertex_count (subgraph par) \<le> kernel_threads t (vertex_count (subgraph par))"
  shows "\<exists>state' t'.
           bfs par t = Inr (par\<lparr>algo_state := Some state'\<rparr>, t') \<and>
           level state' = level state + 1 \<and>
           (if bitmap_is_set (visited state (par_id par)) v
            then bitmap_is_set (visited state' (par_id par)) v \<and> cost state' ! v = cost state ! v
            else if has_frontier_nbr par (stepwise_state par state) v
            then bitmap_is_set (visited state' (par_id par)) v \<and> cost state' ! v = level state + 1 \<and>
                 \<not> engine_finished t'
            else \<not> bitmap_is_set (visited state' (par_id par)) v \<and> cost state' ! v = cost state ! v)"
proof -
  let ?s = "stepwise_state par state"
  let ?Q = "step_found par ?s"
  let ?state' = "(bu_result par ?s ?Q)\<lparr>level := level state + 1\<rparr>"
  have run: "bfs par t = Inr (par\<lparr>algo_state := Some ?state'\<rparr>, step_flag par ?s t)"
    using assms by (intro bfs_eq) auto
  have inQ: "v \<in> ?Q \<longleftrightarrow> \<not> bitmap_is_set (visited state (par_id par)) v \<and> has_frontier_nbr par ?s v"
    using assms(2) by (simp add: step_found_def found_def)
  have vis: "bitmap_is_set (visited ?state' (par_id par)) v \<longleftrightarrow>
               bitmap_is_set (visited state (par_id par)) v \<or> v \<in> ?Q"
    by (simp add: bitmap_is_set_def)
  have cst: "cost ?state' ! v = (if v \<in> ?Q then level state + 1 else cost state ! v)"
    using assms(2,5) by (simp add: cost_bu_result_nth)
  have flag: "v \<in> ?Q \<Longrightarrow> \<not> engine_finished (step_flag par ?s t)"
    using assms(6) by (auto simp: step_flag_def store_flag_def)
  have "level ?state' = level state + 1" by simp
  with run vis cst flag inQ show ?thesis
    by (intro exI[of _ ?state'] exI[of _ "step_flag par ?s t"]) auto
qed

subsection \<open>Walks of the example worlds\<close>

lemma returnedD:
  "returned r = Some (rc, c) \<Longrightarrow> \<exists>w. r = Some (Inr (rc, c, w))"
  by (auto simp: returned_def split: option.splits sum.splits)

lemma walk_last: "walk E a n b \<Longrightarrow> b = a \<or> (\<exists>x. E x b)"
  by (cases n) (auto simp: walk_Suc_iff)

lemma ex_edge_01: "pedge [ex_par0, ex_par1] (0, 0) (0, 1)"
  by code_simp

lemma ex_no_edge_into_3:
  "\<forall>p \<in> set [0..<2]. \<forall>v \<in> set [0..<2]. \<not> pedge [ex_par0, ex_par1] (p, v) (1, 1)"
  by code_simp

lemma ex_vertex_counts:
  "\<forall>p \<in> set [0..<2]. vertex_count (subgraph ([ex_par0, ex_par1] ! p)) = 2"
  by code_simp

lemma ex_unreachable_3: "\<not> reachable (pedge [ex_par0, ex_par1]) (0, 0) (1, 1)"
proof
  assume "reachable (pedge [ex_par0, ex_par1]) (0, 0) (1, 1)"
  then obtain n where "walk (pedge [ex_par0, ex_par1]) (0, 0) n (1, 1)"
    by (auto simp: reachable_def)
  from walk_last[OF this] obtain x where x: "pedge [ex_par0, ex_par1] x (1, 1)" by auto
  obtain p v where pv: "x = (p, v)" by (cases x)
  from x pv have p: "p < 2" and "v < vertex_count (subgraph ([ex_par0, ex_par1] ! p))"
    by (simp_all add: pedge_def is_vertex_def)
  with ex_vertex_counts have "v < 2" by simp
  with p ex_no_edge_into_3 x pv show False by simp
qed


lemma ex_path_wf: "wf_world [ex_par_path] ex_totem_path"
  by code_simp

lemma ex_path_undirected: "undirected [ex_par_path]"
  by code_simp

lemma ex_path_run:
  "returned (bfs_stepwise_hybrid 6 0 (Some [0, 0, 0, 0, 0]) ([ex_par_path], ex_totem_path)) =
     Some (SUCCESS, Some [0, 1, 2, 3, 0])"
  by code_simp

lemma ex_path_edges:
  "pedge [ex_par_path] (0, 0) (0, 1)" "pedge [ex_par_path] (0, 1) (0, 2)"
  "pedge [ex_par_path] (0, 2) (0, 3)" "pedge [ex_par_path] (0, 3) (0, 4)"
  by code_simp+

lemma ex_path_next:
  "\<forall>v \<in> set [0..<5]. \<forall>e \<in> set (nbr_list (subgraph ex_par_path) v).
     snd (target [ex_par_path] 0 e) \<le> v + 1"
  by code_simp

lemma ex_path_edge_le:
  assumes "pedge [ex_par_path] a b"
  shows "snd b \<le> snd a + 1"
proof -
  from assms have a: "fst a = 0" "snd a < vertex_count (subgraph ex_par_path)"
    and b: "b \<in> target [ex_par_path] 0 ` set (nbr_list (subgraph ex_par_path) (snd a))"
    by (auto simp: pedge_def is_vertex_def)
  have "vertex_count (subgraph ex_par_path) = 5" by (simp add: ex_par_path_def)
  with a(2) have "snd a \<in> set [0..<5]" by simp
  with ex_path_next b show ?thesis by blast
qed

lemma ex_path_walk_le:
  "walk (pedge [ex_par_path]) (0, 0) n b \<Longrightarrow> snd b \<le> n"
proof (induction n arbitrary: b)
  case 0
  then show ?case by simp
next
  case (Suc n)
  then obtain a where "walk (pedge [ex_par_path]) (0, 0) n a" "pedge [ex_par_path] a b"
    by (auto simp: walk_Suc_iff)
  with Suc.IH[of a] ex_path_edge_le[of a b] show ?case by simp
qed

lemma ex_path_shortest: "shortest (pedge [ex_par_path]) (0, 0) (0, 4) 4"
proof -
  have "walk (pedge [ex_par_path]) (0, 0) (Suc (Suc (Suc (Suc 0)))) (0, 4)"
    using ex_path_edges by (intro walk_Suc[where b = "(0, 3)"] walk_Suc[where b = "(0, 2)"]
        walk_Suc[where b = "(0, 1)"] walk_Suc[where b = "(0, 0)"] walk_0)
  then have "walk (pedge [ex_par_path]) (0, 0) 4 (0, 4)" by (simp add: eval_nat_numeral)
  moreover have "4 \<le> n" if "walk (pedge [ex_par_path]) (0, 0) n (0, 4)" for n
    using ex_path_walk_le[OF that] by simp
  ultimately show ?thesis by (simp add: shortest_def)
qed


lemma ex_run_facts:
  "\<not> visited_at (fst (projr (engine_supersteps 1 [ex_par0, ex_par1] ex_totem))) (0, 1)"
  "visited_at (fst (projr (engine_supersteps 2 [ex_par0, ex_par1] ex_totem))) (0, 1)"
  "\<not> visited_at (fst (projr (engine_supersteps 2 [ex_par0, ex_par1] ex_totem))) (1, 0)"
  "level_at (fst (projr (engine_supersteps 2 [ex_par0, ex_par1] ex_totem))) 1 = 1"
  "pedge [ex_par0, ex_par1] (1, 0) (0, 1)"
  "is_vertex [ex_par0, ex_par1] (src (state_g ex_totem))"
  "is_vertex [ex_par0, ex_par1] (1, 0)"
  by code_simp+

section \<open>The claims\<close>

text \<open>
  C1. For every well-formed partitioned graph that is undirected, every source below
  the vertex count and every output buffer of one entry per vertex,
  \<open>bfs_stepwise_hybrid\<close> returns \<open>SUCCESS\<close> as soon as the engine's loop may run more
  supersteps than the graph has vertices. The buffer then holds 0 at the source; at every
  vertex \<open>v\<close> that is reachable from the source and whose shortest path from the source
  has a number of edges that \<open>cost_t\<close> can hold, it holds that number; at every vertex
  that is not reachable it holds \<open>INF_COST\<close>.
\<close>

theorem bfs_stepwise_hybrid_shortest_paths:
  fixes t :: "'w::len totem_t"
  assumes "wf_world ps t" and "undirected ps"
    and "source < engine_vertex_count t"
    and "length c = engine_vertex_count t"
    and "engine_vertex_count t < fuel"
  shows "\<exists>c' w'.
           bfs_stepwise_hybrid fuel source (Some c) (ps, t) = Some (Inr (SUCCESS, Some c', w')) \<and>
           length c' = engine_vertex_count t \<and>
           c' ! source = 0 \<and>
           (\<forall>v < engine_vertex_count t.
              if reachable (pedge ps) (engine_vertex_id_in_partition t source)
                   (engine_vertex_id_in_partition t v)
              then \<exists>d. shortest (pedge ps) (engine_vertex_id_in_partition t source)
                          (engine_vertex_id_in_partition t v) d \<and>
                       (d < 2 ^ LENGTH('w) \<longrightarrow> unat (c' ! v) = d)
              else c' ! v = INF_COST t)"
proof -
  let ?s = "engine_vertex_id_in_partition t source"
  have E: "redge ps = pedge ps" using assms(2) by (rule undirected_redge)
  from levels[OF assms(1,3,4,5)] obtain c' w' where
    run: "bfs_stepwise_hybrid fuel source (Some c) (ps, t) = Some (Inr (SUCCESS, Some c', w'))"
    and len: "length c' = engine_vertex_count t"
    and val: "\<forall>a. is_vertex ps a \<longrightarrow>
                c' ! gid ps a =
                  (if \<exists>n. walk (redge ps) ?s n a then of_nat (sdist ps ?s a) else INF_COST t)"
    by blast
  have at: "if reachable (pedge ps) ?s (engine_vertex_id_in_partition t v)
            then \<exists>d. shortest (pedge ps) ?s (engine_vertex_id_in_partition t v) d \<and>
                     (d < 2 ^ LENGTH('w) \<longrightarrow> unat (c' ! v) = d)
            else c' ! v = INF_COST t"
    if v: "v < engine_vertex_count t" for v
  proof -
    let ?a = "engine_vertex_id_in_partition t v"
    have a: "is_vertex ps ?a" and g: "gid ps ?a = v"
      using assms(1) v by (rule wf_source)+
    from val a have "c' ! gid ps ?a =
        (if \<exists>n. walk (redge ps) ?s n ?a then of_nat (sdist ps ?s ?a) else INF_COST t)"
      by blast
    then have c: "c' ! v =
        (if \<exists>n. walk (redge ps) ?s n ?a then of_nat (sdist ps ?s ?a) else INF_COST t)"
      by (simp only: g)
    show ?thesis
    proof (cases "reachable (pedge ps) ?s ?a")
      case True
      then obtain n where n: "walk (redge ps) ?s n ?a" by (auto simp: reachable_def E)
      then have "shortest (pedge ps) ?s ?a (sdist ps ?s ?a)"
        using sdist_shortest[of ps ?s n ?a] by (simp add: E)
      moreover have "c' ! v = of_nat (sdist ps ?s ?a)" using c n by auto
      then have "sdist ps ?s ?a < 2 ^ LENGTH('w) \<longrightarrow> unat (c' ! v) = sdist ps ?s ?a"
        by (simp add: unsigned_of_nat take_bit_nat_eq_self)
      ultimately show ?thesis using True by auto
    next
      case False
      then have "\<not> (\<exists>n. walk (redge ps) ?s n ?a)" by (simp add: reachable_def E)
      with c False show ?thesis by simp
    qed
  qed
  have s: "is_vertex ps ?s" and gs: "gid ps ?s = source"
    using assms(1,3) by (rule wf_source)+
  have w0: "\<exists>n. walk (redge ps) ?s n ?s" by (rule exI[of _ 0]) simp
  from val s have "c' ! gid ps ?s =
        (if \<exists>n. walk (redge ps) ?s n ?s then of_nat (sdist ps ?s ?s) else INF_COST t)"
    by blast
  with w0 gs have "c' ! source = 0" by simp
  with run len at show ?thesis by blast
qed

theorem bfs_stepwise_hybrid_shortest_paths_witness:
  "wf_world [ex_par0, ex_par1] ex_totem \<and> undirected [ex_par0, ex_par1] \<and>
   0 < engine_vertex_count ex_totem \<and>
   length [7, 7, 7, 7 :: 16 word] = engine_vertex_count ex_totem \<and>
   engine_vertex_count ex_totem < 5 \<and>
   (\<exists>c' w'.
      bfs_stepwise_hybrid 5 0 (Some [7, 7, 7, 7]) ([ex_par0, ex_par1], ex_totem) =
        Some (Inr (SUCCESS, Some c', w')) \<and>
      c' ! 0 = 0 \<and> unat (c' ! 1) = 1 \<and> c' ! 3 = INF_COST ex_totem)"
proof -
  let ?ps = "[ex_par0, ex_par1]"
  have h: "0 < engine_vertex_count ex_totem"
    "length [7, 7, 7, 7 :: 16 word] = engine_vertex_count ex_totem"
    "engine_vertex_count ex_totem < 5"
    by (simp_all add: ex_totem_def)
  have n: "engine_vertex_count ex_totem = 4"
    and v: "engine_vertex_id_in_partition ex_totem 0 = (0, 0)"
      "engine_vertex_id_in_partition ex_totem 1 = (0, 1)"
      "engine_vertex_id_in_partition ex_totem 3 = (1, 1)"
    by (simp_all add: ex_totem_def)
  from bfs_stepwise_hybrid_shortest_paths[OF ex_wf ex_undirected h]
  obtain c' w' where
    run: "bfs_stepwise_hybrid 5 0 (Some [7, 7, 7, 7]) (?ps, ex_totem) =
            Some (Inr (SUCCESS, Some c', w'))"
    and c0: "c' ! 0 = 0"
    and val: "\<forall>v < engine_vertex_count ex_totem.
              if reachable (pedge ?ps) (engine_vertex_id_in_partition ex_totem 0)
                   (engine_vertex_id_in_partition ex_totem v)
              then \<exists>d. shortest (pedge ?ps) (engine_vertex_id_in_partition ex_totem 0)
                          (engine_vertex_id_in_partition ex_totem v) d \<and>
                       (d < 2 ^ LENGTH(16) \<longrightarrow> unat (c' ! v) = d)
              else c' ! v = INF_COST ex_totem"
    by blast
  have val1: "if reachable (pedge ?ps) (0, 0) (0, 1)
              then \<exists>d. shortest (pedge ?ps) (0, 0) (0, 1) d \<and>
                       (d < 2 ^ LENGTH(16) \<longrightarrow> unat (c' ! 1) = d)
              else c' ! 1 = INF_COST ex_totem"
    using val[rule_format, of 1] unfolding v n(1) by simp
  have val3: "if reachable (pedge ?ps) (0, 0) (1, 1)
              then \<exists>d. shortest (pedge ?ps) (0, 0) (1, 1) d \<and>
                       (d < 2 ^ LENGTH(16) \<longrightarrow> unat (c' ! 3) = d)
              else c' ! 3 = INF_COST ex_totem"
    using val[rule_format, of 3] unfolding v n(1) by simp
  have w1: "walk (pedge ?ps) (0, 0) 1 (0, 1)"
    using ex_edge_01 by (simp add: walk_Suc_iff)
  then have "reachable (pedge ?ps) (0, 0) (0, 1)" unfolding reachable_def by blast
  with val1 obtain d where d: "shortest (pedge ?ps) (0, 0) (0, 1) d"
    "d < 2 ^ LENGTH(16) \<longrightarrow> unat (c' ! 1) = d"
    by auto
  from d(1) w1 have "d \<le> 1" "walk (pedge ?ps) (0, 0) d (0, 1)" by (auto simp: shortest_def)
  then have "d = 1" by (cases d) auto
  with d(2) have c1: "unat (c' ! 1) = 1" by simp
  from val3 ex_unreachable_3 have c3: "c' ! 3 = INF_COST ex_totem"
    by simp
  from run c0 c1 c3 have "\<exists>c' w'.
      bfs_stepwise_hybrid 5 0 (Some [7, 7, 7, 7]) ([ex_par0, ex_par1], ex_totem) =
        Some (Inr (SUCCESS, Some c', w')) \<and>
      c' ! 0 = 0 \<and> unat (c' ! 1) = 1 \<and> c' ! 3 = INF_COST ex_totem"
    by blast
  then show ?thesis
    by (intro conjI ex_wf ex_undirected h)
qed

text \<open>
  Counterexample to C1 as stated, with no bound on the length of a shortest path. With
  a \<open>cost_t\<close> of two bits, on the undirected path 0 - 1 - 2 - 3 - 4 and the source 0,
  the run returns \<open>SUCCESS\<close>; the shortest path from the source to vertex 4 has four
  edges, and the entry of vertex 4 holds 0, the cost of the source: \<open>level + 1\<close> has
  wrapped.
\<close>

theorem bfs_stepwise_hybrid_cost_overflow:
  "wf_world [ex_par_path] ex_totem_path \<and> undirected [ex_par_path] \<and>
   shortest (pedge [ex_par_path]) (engine_vertex_id_in_partition ex_totem_path 0)
     (engine_vertex_id_in_partition ex_totem_path 4) 4 \<and>
   (\<exists>c' w'. bfs_stepwise_hybrid 6 0 (Some [0, 0, 0, 0, 0]) ([ex_par_path], ex_totem_path) =
              Some (Inr (SUCCESS, Some c', w')) \<and>
            unat (c' ! 4) = 0)"
proof -
  have v: "engine_vertex_id_in_partition ex_totem_path 0 = (0, 0)"
    "engine_vertex_id_in_partition ex_totem_path 4 = (0, 4)"
    by (simp_all add: ex_totem_path_def)
  from ex_path_run obtain w' where
    "bfs_stepwise_hybrid 6 0 (Some [0, 0, 0, 0, 0]) ([ex_par_path], ex_totem_path) =
       Some (Inr (SUCCESS, Some [0, 1, 2, 3, 0], w'))"
    using returnedD by blast
  moreover have "unat ([0, 1, 2, 3, 0 :: 2 word] ! 4) = 0" by simp
  ultimately have r: "\<exists>c' w'.
      bfs_stepwise_hybrid 6 0 (Some [0, 0, 0, 0, 0]) ([ex_par_path], ex_totem_path) =
        Some (Inr (SUCCESS, Some c', w')) \<and> unat (c' ! 4) = 0"
    by blast
  from ex_path_shortest r show ?thesis
    unfolding v by (intro conjI ex_path_wf ex_path_undirected)
qed


text \<open>
  C2. In the step phase of a superstep from the second on, on a CPU or a GPU partition,
  the step callback returns with the level advanced by one, and for every local vertex
  \<open>v\<close>: if \<open>v\<close> is already in the partition's visited bitmap, its bit and its cost are
  as before; otherwise, if some neighbour of \<open>v\<close> has its bit set in the frontier bitmap
  of the partition that owns the neighbour, the bit of \<open>v\<close> is set, its cost is the level
  before the call plus one and the engine's finish flag is cleared; otherwise the bit
  stays clear and the cost is as before.

  Consequently, in a run of the engine on a well-formed world, for every superstep
  \<open>j \<ge> 1\<close> and every vertex \<open>a\<close> that is not visited after superstep \<open>j\<close>: the vertex is
  given its cost in superstep \<open>j + 1\<close>, the superstep immediately after \<open>j\<close>, exactly
  when one of its neighbours first entered the frontier in superstep \<open>j\<close>, that is, is
  visited after superstep \<open>j\<close> and was not after superstep \<open>j - 1\<close> (in superstep 1 the
  only such vertex is the source, which \<open>init\<close> marked and the gather of superstep 1
  published). In that case the scan of superstep \<open>j + 1\<close> reads the bit of a neighbour
  in the frontier bitmap of its owner (the frontier tracker for a local neighbour, the
  outbox that gather and communication filled for a remote one), the engine does not
  stop after superstep \<open>j\<close>, the cost of \<open>a\<close> is the level after superstep \<open>j\<close> plus one,
  and superstep \<open>j + 1\<close> reports "not finished". A vertex that is visited keeps its cost.
\<close>

theorem bfs_step_phase:
  fixes t tw :: "'w::len totem_t"
  shows
    "(2 \<le> engine_superstep t \<and> v < vertex_count (subgraph par) \<and>
      processor_type par \<noteq> PROCESSOR_MAX \<and> algo_state par = Some state \<and>
      length (cost state) = vertex_count (subgraph par) \<and>
      finished state = Engine_finished \<and>
      vertex_count (subgraph par) \<le> kernel_threads t (vertex_count (subgraph par)) \<longrightarrow>
      (\<exists>state' t'.
         bfs par t = Inr (par\<lparr>algo_state := Some state'\<rparr>, t') \<and>
         level state' = level state + 1 \<and>
         (if bitmap_is_set (visited state (par_id par)) v
          then bitmap_is_set (visited state' (par_id par)) v \<and> cost state' ! v = cost state ! v
          else if has_frontier_nbr par (stepwise_state par state) v
          then bitmap_is_set (visited state' (par_id par)) v \<and>
               cost state' ! v = level state + 1 \<and> \<not> engine_finished t'
          else \<not> bitmap_is_set (visited state' (par_id par)) v \<and>
               cost state' ! v = cost state ! v))) \<and>
     (wf_world ps tw \<and> is_vertex ps (src (state_g tw)) \<and> is_vertex ps a \<and> 1 \<le> j \<longrightarrow>
      (\<exists>ps_i t_i ps_j t_j ps_n t_n.
         engine_supersteps (j - 1) ps tw = Inr (ps_i, t_i) \<and>
         engine_supersteps j ps tw = Inr (ps_j, t_j) \<and>
         engine_supersteps (Suc j) ps tw = Inr (ps_n, t_n) \<and>
         engine_superstep t_j = j \<and> engine_superstep t_n = Suc j \<and>
         (if visited_at ps_j a
          then visited_at ps_n a \<and> cost_at ps_n a = cost_at ps_j a
          else if \<exists>u. pedge ps a u \<and> visited_at ps_j u \<and> (j = 1 \<or> \<not> visited_at ps_i u)
          then has_frontier_nbr (ps_j ! fst a)
                 (stepwise_state (ps_j ! fst a) (the (algo_state (ps_j ! fst a)))) (snd a) \<and>
               \<not> engine_finished t_j \<and>
               visited_at ps_n a \<and> cost_at ps_n a = level_at ps_j (fst a) + 1 \<and>
               \<not> engine_finished t_n
          else \<not> has_frontier_nbr (ps_j ! fst a)
                   (stepwise_state (ps_j ! fst a) (the (algo_state (ps_j ! fst a)))) (snd a) \<and>
               \<not> visited_at ps_n a \<and> cost_at ps_n a = cost_at ps_j a)))"
  using step_phase_call[of t v par state] step_phase_run[of ps tw a j] by blast

theorem bfs_step_phase_witness:
  "2 \<le> engine_superstep ex_totem2 \<and>
   1 < vertex_count (subgraph ex_par0_init) \<and>
   processor_type ex_par0_init \<noteq> PROCESSOR_MAX \<and>
   algo_state ex_par0_init = Some ex_state0 \<and>
   length (cost ex_state0) = vertex_count (subgraph ex_par0_init) \<and>
   finished ex_state0 = Engine_finished \<and>
   vertex_count (subgraph ex_par0_init)
     \<le> kernel_threads ex_totem2 (vertex_count (subgraph ex_par0_init)) \<and>
   (\<exists>state' t'.
      bfs ex_par0_init ex_totem2 = Inr (ex_par0_init\<lparr>algo_state := Some state'\<rparr>, t') \<and>
      level state' = 1 \<and> bitmap_is_set (visited state' 0) 1 \<and> cost state' ! 1 = 1 \<and>
      \<not> engine_finished t') \<and>
   wf_world [ex_par0, ex_par1] ex_totem \<and>
   is_vertex [ex_par0, ex_par1] (src (state_g ex_totem)) \<and>
   is_vertex [ex_par0, ex_par1] (1, 0) \<and> (1 :: nat) \<le> 2 \<and>
   pedge [ex_par0, ex_par1] (1, 0) (0, 1) \<and>
   (\<exists>ps_i t_i ps_j t_j ps_n t_n.
      engine_supersteps 1 [ex_par0, ex_par1] ex_totem = Inr (ps_i, t_i) \<and>
      engine_supersteps 2 [ex_par0, ex_par1] ex_totem = Inr (ps_j, t_j) \<and>
      engine_supersteps 3 [ex_par0, ex_par1] ex_totem = Inr (ps_n, t_n) \<and>
      \<not> visited_at ps_i (0, 1) \<and> visited_at ps_j (0, 1) \<and> \<not> visited_at ps_j (1, 0) \<and>
      \<not> engine_finished t_j \<and>
      visited_at ps_n (1, 0) \<and> cost_at ps_n (1, 0) = 2 \<and> \<not> engine_finished t_n)"
proof -
  let ?ps = "[ex_par0, ex_par1]"
  have h: "2 \<le> engine_superstep ex_totem2"
    "1 < vertex_count (subgraph ex_par0_init)"
    "processor_type ex_par0_init \<noteq> PROCESSOR_MAX"
    "algo_state ex_par0_init = Some ex_state0"
    "length (cost ex_state0) = vertex_count (subgraph ex_par0_init)"
    "finished ex_state0 = Engine_finished"
    "vertex_count (subgraph ex_par0_init)
       \<le> kernel_threads ex_totem2 (vertex_count (subgraph ex_par0_init))"
    by (simp_all add: ex_totem2_def ex_totem_def ex_par0_init_def ex_par0_def ex_state0_def)
  have g: "is_vertex ?ps (src (state_g ex_totem))" "is_vertex ?ps (1, 0)" "(1 :: nat) \<le> 2"
    using ex_run_facts(6,7) by simp_all
  note inst = bfs_step_phase[of ex_totem2 1 ex_par0_init ex_state0 ?ps ex_totem "(1, 0)" 2]
  have c: "\<not> bitmap_is_set (visited ex_state0 (par_id ex_par0_init)) 1"
    "has_frontier_nbr ex_par0_init (stepwise_state ex_par0_init ex_state0) 1"
    using ex_found(2) by (simp_all add: found_def)
  have p: "par_id ex_par0_init = 0" "level ex_state0 = 0"
    by (simp_all add: ex_par0_init_def ex_par0_def ex_state0_def)
  from inst h obtain state' t' where
    r: "bfs ex_par0_init ex_totem2 = Inr (ex_par0_init\<lparr>algo_state := Some state'\<rparr>, t')"
       "level state' = level ex_state0 + 1"
       "if bitmap_is_set (visited ex_state0 (par_id ex_par0_init)) 1
        then bitmap_is_set (visited state' (par_id ex_par0_init)) 1 \<and>
             cost state' ! 1 = cost ex_state0 ! 1
        else if has_frontier_nbr ex_par0_init (stepwise_state ex_par0_init ex_state0) 1
        then bitmap_is_set (visited state' (par_id ex_par0_init)) 1 \<and>
             cost state' ! 1 = level ex_state0 + 1 \<and> \<not> engine_finished t'
        else \<not> bitmap_is_set (visited state' (par_id ex_par0_init)) 1 \<and>
             cost state' ! 1 = cost ex_state0 ! 1"
    by blast
  from r(3) c have "bitmap_is_set (visited state' (par_id ex_par0_init)) 1 \<and>
             cost state' ! 1 = level ex_state0 + 1 \<and> \<not> engine_finished t'"
    by simp
  with r(2) have "level state' = 1 \<and> bitmap_is_set (visited state' 0) 1 \<and> cost state' ! 1 = 1 \<and>
      \<not> engine_finished t'"
    by (simp add: p)
  with r(1) have A: "\<exists>state' t'.
      bfs ex_par0_init ex_totem2 = Inr (ex_par0_init\<lparr>algo_state := Some state'\<rparr>, t') \<and>
      level state' = 1 \<and> bitmap_is_set (visited state' 0) 1 \<and> cost state' ! 1 = 1 \<and>
      \<not> engine_finished t'"
    by blast
  from inst ex_wf g obtain ps_i t_i ps_j t_j ps_n t_n where
    e: "engine_supersteps (2 - 1) ?ps ex_totem = Inr (ps_i, t_i)"
       "engine_supersteps 2 ?ps ex_totem = Inr (ps_j, t_j)"
       "engine_supersteps (Suc 2) ?ps ex_totem = Inr (ps_n, t_n)"
    and b: "if visited_at ps_j (1, 0)
          then visited_at ps_n (1, 0) \<and> cost_at ps_n (1, 0) = cost_at ps_j (1, 0)
          else if \<exists>u. pedge ?ps (1, 0) u \<and> visited_at ps_j u \<and>
                       ((2 :: nat) = 1 \<or> \<not> visited_at ps_i u)
          then has_frontier_nbr (ps_j ! fst (1 :: nat, 0 :: nat))
                 (stepwise_state (ps_j ! fst (1 :: nat, 0 :: nat))
                    (the (algo_state (ps_j ! fst (1 :: nat, 0 :: nat))))) (snd (1 :: nat, 0 :: nat)) \<and>
               \<not> engine_finished t_j \<and>
               visited_at ps_n (1, 0) \<and>
               cost_at ps_n (1, 0) = level_at ps_j (fst (1 :: nat, 0 :: nat)) + 1 \<and>
               \<not> engine_finished t_n
          else \<not> has_frontier_nbr (ps_j ! fst (1 :: nat, 0 :: nat))
                   (stepwise_state (ps_j ! fst (1 :: nat, 0 :: nat))
                      (the (algo_state (ps_j ! fst (1 :: nat, 0 :: nat))))) (snd (1 :: nat, 0 :: nat)) \<and>
               \<not> visited_at ps_n (1, 0) \<and> cost_at ps_n (1, 0) = cost_at ps_j (1, 0)"
    by blast
  have e1: "engine_supersteps 1 ?ps ex_totem = Inr (ps_i, t_i)" using e(1) by simp
  have e3: "engine_supersteps 3 ?ps ex_totem = Inr (ps_n, t_n)"
    using e(3) by (simp add: eval_nat_numeral)
  have f: "\<not> visited_at ps_i (0, 1)" "visited_at ps_j (0, 1)" "\<not> visited_at ps_j (1, 0)"
    "level_at ps_j 1 = 1"
    using ex_run_facts(1) ex_run_facts(2,3,4) unfolding e1 e(2) by simp_all
  from f(1,2) ex_run_facts(5)
  have n: "\<exists>u. pedge ?ps (1, 0) u \<and> visited_at ps_j u \<and> ((2 :: nat) = 1 \<or> \<not> visited_at ps_i u)"
    by blast
  from b f(3) n have "\<not> engine_finished t_j \<and> visited_at ps_n (1, 0) \<and>
      cost_at ps_n (1, 0) = level_at ps_j 1 + 1 \<and> \<not> engine_finished t_n"
    by simp
  with f(4) have "\<not> engine_finished t_j \<and> visited_at ps_n (1, 0) \<and>
      cost_at ps_n (1, 0) = 2 \<and> \<not> engine_finished t_n"
    by simp
  with e1 e(2) e3 f(1,2,3) have B: "\<exists>ps_i t_i ps_j t_j ps_n t_n.
      engine_supersteps 1 ?ps ex_totem = Inr (ps_i, t_i) \<and>
      engine_supersteps 2 ?ps ex_totem = Inr (ps_j, t_j) \<and>
      engine_supersteps 3 ?ps ex_totem = Inr (ps_n, t_n) \<and>
      \<not> visited_at ps_i (0, 1) \<and> visited_at ps_j (0, 1) \<and> \<not> visited_at ps_j (1, 0) \<and>
      \<not> engine_finished t_j \<and>
      visited_at ps_n (1, 0) \<and> cost_at ps_n (1, 0) = 2 \<and> \<not> engine_finished t_n"
    by blast
  from A B show ?thesis
    by (intro conjI h ex_wf g ex_run_facts(5))
qed


text \<open>
  C3. \<open>bfs_stepwise_hybrid\<close> returns \<open>FAILURE\<close> exactly when the source is not below
  the vertex count or the output buffer is null; it then returns at once, whatever the
  fuel, and the caller's buffer and the whole world (every partition, the engine context
  and \<open>state_g\<close>) are as before the call.
\<close>

theorem bfs_stepwise_hybrid_failure:
  "bfs_stepwise_hybrid fuel source cost_buf w = Some (Inr (FAILURE, cost_buf', w')) \<longleftrightarrow>
     (source \<ge> engine_vertex_count (snd w) \<or> cost_buf = None) \<and> cost_buf' = cost_buf \<and> w' = w"
  by (auto simp: bfs_stepwise_hybrid_def check_special_cases_def Let_def
           split: option.splits sum.splits if_splits)

text \<open>
  C4. On a graph without edges, for a source below the vertex count and an output buffer
  of one entry per vertex, \<open>bfs_stepwise_hybrid\<close> returns \<open>SUCCESS\<close>; every entry of the
  buffer is then \<open>INF_COST\<close>, except the entry of the source, which is 0. No superstep
  runs: the result needs no fuel and the world is as before the call.
\<close>

theorem bfs_stepwise_hybrid_zero_edges:
  assumes "engine_edge_count t = 0" and "source < engine_vertex_count t"
    and "length c = engine_vertex_count t"
  shows "bfs_stepwise_hybrid fuel source (Some c) (ps, t) =
     Some (Inr (SUCCESS, Some ((replicate (engine_vertex_count t) (INF_COST t))[source := 0]), (ps, t)))"
proof (cases "engine_vertex_count t = 1")
  case True
  with assms have "source = 0" and "length c = 1" by simp_all
  then obtain a where "c = [a]" by (cases c) auto
  with True \<open>source = 0\<close> show ?thesis
    by (simp add: bfs_stepwise_hybrid_def check_special_cases_def)
next
  case False
  with assms show ?thesis
    by (simp add: bfs_stepwise_hybrid_def check_special_cases_def totem_memset_replicate)
qed

theorem bfs_stepwise_hybrid_zero_edges_witness:
  "engine_edge_count ex_totem_no_edges = 0 \<and> 2 < engine_vertex_count ex_totem_no_edges \<and>
   length [7, 7, 7, 7 :: 16 word] = engine_vertex_count ex_totem_no_edges \<and>
   bfs_stepwise_hybrid 0 2 (Some [7, 7, 7, 7]) ([ex_par0, ex_par1], ex_totem_no_edges) =
     Some (Inr (SUCCESS, Some [- 1, - 1, 0, - 1], ([ex_par0, ex_par1], ex_totem_no_edges)))"
proof -
  have h: "engine_edge_count ex_totem_no_edges = 0" "2 < engine_vertex_count ex_totem_no_edges"
    "length [7, 7, 7, 7 :: 16 word] = engine_vertex_count ex_totem_no_edges"
    by (simp_all add: ex_totem_no_edges_def ex_totem_def)
  have e: "(replicate (engine_vertex_count ex_totem_no_edges) (INF_COST ex_totem_no_edges))[2 := 0]
          = [- 1, - 1, 0, - 1]"
    by code_simp
  have "bfs_stepwise_hybrid 0 2 (Some [7, 7, 7, 7]) ([ex_par0, ex_par1], ex_totem_no_edges) =
     Some (Inr (SUCCESS, Some [- 1, - 1, 0, - 1], ([ex_par0, ex_par1], ex_totem_no_edges)))"
    using bfs_stepwise_hybrid_zero_edges[OF h, of 0 "[ex_par0, ex_par1]"]
    by (simp only: e)
  then show ?thesis
    by (intro conjI h)
qed

text \<open>
  C5. On a CPU or a GPU partition the gather callback returns, and changes only the
  inboxes: for every remote partition id below the partition count, other than the
  partition's own id, whose inbox has entries, the bit of an entry is set in the inbox
  buffer when the local vertex recorded for the entry is in the partition's own visited
  bitmap; every other bit of the buffer, and every other inbox, stays as it was. No bit
  is cleared.
\<close>

theorem bfs_gather_inboxes:
  assumes "processor_type par \<noteq> PROCESSOR_MAX" and "algo_state par = Some state"
    and "\<forall>n. n \<le> kernel_threads t n"
  shows "\<exists>par'. bfs_gather par t = Inr par' \<and>
           par' = par\<lparr>inbox := inbox par'\<rparr> \<and>
           (\<forall>rmt_pid.
              inbox par' rmt_pid =
                (if rmt_pid < engine_partition_count t \<and> rmt_pid \<noteq> par_id par \<and>
                    count (inbox par rmt_pid) \<noteq> 0
                 then (inbox par rmt_pid)
                        \<lparr>pull_values := pull_values (inbox par rmt_pid) \<union>
                           {index. index < count (inbox par rmt_pid) \<and>
                              bitmap_is_set (visited state (par_id par))
                                (rmt_nbrs (inbox par rmt_pid) ! index)}\<rparr>
                 else inbox par rmt_pid)) \<and>
           (\<forall>rmt_pid. pull_values (inbox par rmt_pid) \<subseteq> pull_values (inbox par' rmt_pid))"
proof -
  let ?par' = "gather_result par (visited state (par_id par)) {0..<engine_partition_count t}"
  have "bfs_gather par t = Inr ?par'"
    using assms by (rule bfs_gather_eq)
  moreover have "?par' = par\<lparr>inbox := inbox ?par'\<rparr>"
    by (simp add: gather_result_def)
  moreover have "inbox ?par' rmt_pid =
                (if rmt_pid < engine_partition_count t \<and> rmt_pid \<noteq> par_id par \<and>
                    count (inbox par rmt_pid) \<noteq> 0
                 then (inbox par rmt_pid)
                        \<lparr>pull_values := pull_values (inbox par rmt_pid) \<union>
                           {index. index < count (inbox par rmt_pid) \<and>
                              bitmap_is_set (visited state (par_id par))
                                (rmt_nbrs (inbox par rmt_pid) ! index)}\<rparr>
                 else inbox par rmt_pid)" for rmt_pid
    by (simp add: gather_result_def gathered_def)
  moreover have "pull_values (inbox par rmt_pid) \<subseteq> pull_values (inbox ?par' rmt_pid)" for rmt_pid
    by (simp add: gather_result_def gathered_def)
  ultimately show ?thesis by blast
qed

theorem bfs_gather_inboxes_witness:
  "processor_type ex_par0_next \<noteq> PROCESSOR_MAX \<and> algo_state ex_par0_next = Some ex_state1 \<and>
   (\<forall>n. n \<le> kernel_threads ex_totem2 n) \<and>
   (\<exists>par'. bfs_gather ex_par0_next ex_totem2 = Inr par' \<and> pull_values (inbox par' 1) = {0} \<and>
            inbox par' 0 = inbox ex_par0_next 0)"
proof -
  have h: "processor_type ex_par0_next \<noteq> PROCESSOR_MAX" "algo_state ex_par0_next = Some ex_state1"
    "\<forall>n. n \<le> kernel_threads ex_totem2 n"
    by (simp_all add: ex_par0_next_def ex_par0_def ex_kernel_threads)
  from bfs_gather_inboxes[OF h] obtain par' where
    r: "bfs_gather ex_par0_next ex_totem2 = Inr par'"
    and i: "\<And>rmt_pid. inbox par' rmt_pid =
                (if rmt_pid < engine_partition_count ex_totem2 \<and> rmt_pid \<noteq> par_id ex_par0_next \<and>
                    count (inbox ex_par0_next rmt_pid) \<noteq> 0
                 then (inbox ex_par0_next rmt_pid)
                        \<lparr>pull_values := pull_values (inbox ex_par0_next rmt_pid) \<union>
                           {index. index < count (inbox ex_par0_next rmt_pid) \<and>
                              bitmap_is_set (visited ex_state1 (par_id ex_par0_next))
                                (rmt_nbrs (inbox ex_par0_next rmt_pid) ! index)}\<rparr>
                 else inbox ex_par0_next rmt_pid)"
    by blast
  have "pull_values (inbox par' 1) = {0}"
    unfolding i
    by (auto simp: ex_par0_next_def ex_par0_def ex_totem2_def ex_totem_def ex_box_def
          ex_state1_def bitmap_is_set_def)
  moreover have "inbox par' 0 = inbox ex_par0_next 0"
    unfolding i by (simp add: ex_par0_next_def ex_par0_def)
  ultimately have "\<exists>par'. bfs_gather ex_par0_next ex_totem2 = Inr par' \<and>
     pull_values (inbox par' 1) = {0} \<and> inbox par' 0 = inbox ex_par0_next 0"
    using r by blast
  then show ?thesis
    by (intro conjI h)
qed

text \<open>
  C6. Along every run of a partition (any sequence of step callbacks, gather callbacks
  and actions of the engine), the visited bitmap only grows and the cost of a vertex
  that is visited never changes again. In every step callback of the run the costs that
  change are exactly those of the vertices that the callback marks visited, and the value
  they get is the level of the partition before the callback plus one.
\<close>

theorem visited_monotone_cost_stable:
  assumes "run (par, t) (par', t')" and "algo_state par = Some state"
  shows "(\<exists>state'. algo_state par' = Some state' \<and> par_id par' = par_id par \<and>
            visited state (par_id par) \<subseteq> visited state' (par_id par) \<and>
            length (cost state') = length (cost state) \<and>
            (\<forall>v < length (cost state).
               bitmap_is_set (visited state (par_id par)) v \<longrightarrow> cost state' ! v = cost state ! v)) \<and>
         (\<forall>par'' t'' state'. bfs par' t' = Inr (par'', t'') \<and> algo_state par' = Some state' \<longrightarrow>
            (\<exists>state''. algo_state par'' = Some state'' \<and>
               visited state' (par_id par) \<subseteq> visited state'' (par_id par) \<and>
               (\<forall>v < length (cost state').
                  cost state'' ! v =
                    (if bitmap_is_set (visited state'' (par_id par)) v \<and>
                        \<not> bitmap_is_set (visited state' (par_id par)) v
                     then level state' + 1 else cost state' ! v))))"
proof -
  define inv where "inv c \<longleftrightarrow>
     (\<exists>state'. algo_state (fst c) = Some state' \<and> par_id (fst c) = par_id par \<and>
            visited state (par_id par) \<subseteq> visited state' (par_id par) \<and>
            length (cost state') = length (cost state) \<and>
            (\<forall>v < length (cost state).
               bitmap_is_set (visited state (par_id par)) v \<longrightarrow> cost state' ! v = cost state ! v))"
    for c :: "'a partition_t \<times> 'a totem_t"
  have "run c0 c \<Longrightarrow> c0 = (par, t) \<Longrightarrow> inv c" for c0 c
  proof (induction rule: run.induct)
    case (run_start c)
    with assms(2) show ?case by (simp add: inv_def)
  next
    case (run_bfs c p1 t1 p2 t2)
    then have "inv (p1, t1)" by simp
    then obtain s1 where s1: "algo_state p1 = Some s1" "par_id p1 = par_id par"
      "visited state (par_id par) \<subseteq> visited s1 (par_id par)"
      "length (cost s1) = length (cost state)"
      "\<forall>v < length (cost state).
               bitmap_is_set (visited state (par_id par)) v \<longrightarrow> cost s1 ! v = cost state ! v"
      by (auto simp: inv_def)
    from bfs_step_effect[OF run_bfs.hyps(2) s1(1)] obtain s2 where
      s2: "algo_state p2 = Some s2" "par_id p2 = par_id p1"
        "visited s1 (par_id p1) \<subseteq> visited s2 (par_id p1)"
        "length (cost s2) = length (cost s1)"
        "\<forall>v < length (cost s1). cost s2 ! v =
                (if bitmap_is_set (visited s2 (par_id p1)) v \<and>
                    \<not> bitmap_is_set (visited s1 (par_id p1)) v
                 then level s1 + 1 else cost s1 ! v)"
      by blast
    have "cost s2 ! v = cost state ! v"
      if "v < length (cost state)" "bitmap_is_set (visited state (par_id par)) v" for v
    proof -
      from that s1(3) have "bitmap_is_set (visited s1 (par_id p1)) v"
        by (auto simp: bitmap_is_set_def s1(2))
      with s2(5) that(1) s1(4) have "cost s2 ! v = cost s1 ! v" by simp
      with s1(5) that show ?thesis by simp
    qed
    with s1 s2 show ?case
      by (auto simp: inv_def)
  next
    case (run_gather c p1 t1 p2)
    then have "inv (p1, t1)" by simp
    moreover from run_gather.hyps(2)
    have "algo_state p2 = algo_state p1 \<and> par_id p2 = par_id p1 \<and> subgraph p2 = subgraph p1"
      unfolding bfs_gather_def by (rule bfs_gather_effect)
    ultimately show ?case by (simp add: inv_def)
  next
    case (run_engine c p1 t1 p2 t2)
    then show ?case by (simp add: inv_def)
  qed
  from this[OF assms(1) refl] have inv: "inv (par', t')" .
  then have pid: "par_id par' = par_id par" by (auto simp: inv_def)
  have "\<exists>state''. algo_state par'' = Some state'' \<and>
               visited state' (par_id par) \<subseteq> visited state'' (par_id par) \<and>
               (\<forall>v < length (cost state').
                  cost state'' ! v =
                    (if bitmap_is_set (visited state'' (par_id par)) v \<and>
                        \<not> bitmap_is_set (visited state' (par_id par)) v
                     then level state' + 1 else cost state' ! v))"
    if "bfs par' t' = Inr (par'', t'')" "algo_state par' = Some state'" for par'' t'' state'
    using bfs_step_effect[OF that] by (auto simp: pid)
  with inv show ?thesis
    unfolding inv_def by (simp only: fst_conv) blast
qed

theorem visited_monotone_cost_stable_witness:
  "run (ex_par0_init, ex_totem2) (ex_par0_next, ex_totem2\<lparr>engine_finished := False\<rparr>) \<and>
   algo_state ex_par0_init = Some ex_state0 \<and>
   (\<exists>state'. algo_state ex_par0_next = Some state' \<and> par_id ex_par0_next = par_id ex_par0_init \<and>
            visited ex_state0 (par_id ex_par0_init) \<subseteq> visited state' (par_id ex_par0_init) \<and>
            length (cost state') = length (cost ex_state0) \<and>
            (\<forall>v < length (cost ex_state0).
               bitmap_is_set (visited ex_state0 (par_id ex_par0_init)) v \<longrightarrow>
               cost state' ! v = cost ex_state0 ! v))"
proof -
  have h: "run (ex_par0_init, ex_totem2) (ex_par0_next, ex_totem2\<lparr>engine_finished := False\<rparr>)"
    "algo_state ex_par0_init = Some ex_state0"
    using run_bfs[OF run_start ex_bfs] by (simp_all add: ex_par0_init_def)
  from visited_monotone_cost_stable[OF h] show ?thesis
    by (intro conjI h) blast
qed

text \<open>
  C7. The GPU kernel and the CPU step function compute the same: whatever the order in
  which the threads of the kernel run, as long as every vertex has its thread, the
  launch leaves the state (visited bitmap, cost array) and the finish flag that
  \<open>bfs_bu_step\<close> leaves on the same partition, state and context; and the two step
  wrappers, frontier update included, agree when the grid covers the vertices.
\<close>

theorem cpu_gpu_step_equivalent:
  assumes "{0..<vertex_count (subgraph par)} \<subseteq> set schedule"
    and "vertex_count (subgraph par) \<le> kernel_threads t (vertex_count (subgraph par))"
  shows "launch_kernel_schedule schedule (\<lambda>v. bfs_bu_kernel v par) (state, t) =
           bfs_bu_step par state t \<and>
         bfs_stepwise_gpu par state t = bfs_stepwise_cpu par state t"
  using kernel_schedule_eq_step[OF assms(1)] stepwise_gpu_eq_cpu[OF assms(2)] by simp

theorem cpu_gpu_step_equivalent_witness:
  "{0..<vertex_count (subgraph ex_par0_init)} \<subseteq> set [1, 0] \<and>
   vertex_count (subgraph ex_par0_init)
     \<le> kernel_threads ex_totem2 (vertex_count (subgraph ex_par0_init)) \<and>
   launch_kernel_schedule [1, 0] (\<lambda>v. bfs_bu_kernel v ex_par0_init) (ex_state0, ex_totem2) =
     bfs_bu_step ex_par0_init ex_state0 ex_totem2 \<and>
   bfs_stepwise_gpu ex_par0_init ex_state0 ex_totem2 =
     bfs_stepwise_cpu ex_par0_init ex_state0 ex_totem2"
proof -
  have h: "{0..<vertex_count (subgraph ex_par0_init)} \<subseteq> set [1, 0]"
    "vertex_count (subgraph ex_par0_init)
       \<le> kernel_threads ex_totem2 (vertex_count (subgraph ex_par0_init))"
    by (auto simp: ex_par0_init_def ex_par0_def ex_kernel_threads)
  from cpu_gpu_step_equivalent[OF h, of ex_state0] show ?thesis
    by (intro conjI h) simp_all
qed

text \<open>
  C8. In superstep 1 the step callback of a partition that has vertices does nothing
  but report "not finished": the partition (its cost array, visited bitmap, frontier
  pointers and level) is returned as it was, and of the context only the finish flag
  changes. When the partition is the one that \<open>init\<close> gave the source, the gather that
  follows the callback sets the bit of every inbox entry that stands for the source.
\<close>

theorem bfs_first_superstep:
  assumes "vertex_count (subgraph par) \<noteq> 0" and "engine_superstep t = 1"
  shows "bfs par t = Inr (par, engine_report_not_finished t) \<and>
         (\<forall>par0 t0 rmt_pid index.
            bfs_init par0 t0 = Inr par \<and> GET_PARTITION_ID (src (state_g t0)) = par_id par0 \<and>
            (\<forall>n. n \<le> kernel_threads t n) \<and>
            rmt_pid < engine_partition_count t \<and> rmt_pid \<noteq> par_id par \<and>
            index < count (inbox par rmt_pid) \<and>
            rmt_nbrs (inbox par rmt_pid) ! index = GET_VERTEX_ID (src (state_g t0)) \<longrightarrow>
            (\<exists>par'. bfs_gather par (engine_report_not_finished t) = Inr par' \<and>
                    bitmap_is_set (pull_values (inbox par' rmt_pid)) index))"
proof -
  have step: "bfs par t = Inr (par, engine_report_not_finished t)"
    using assms by (simp add: bfs_def)
  have "\<exists>par'. bfs_gather par (engine_report_not_finished t) = Inr par' \<and>
                    bitmap_is_set (pull_values (inbox par' rmt_pid)) index"
    if init: "bfs_init par0 t0 = Inr par"
      and s: "GET_PARTITION_ID (src (state_g t0)) = par_id par0"
      and k: "\<forall>n. n \<le> kernel_threads t n"
      and r: "rmt_pid < engine_partition_count t" "rmt_pid \<noteq> par_id par"
        "index < count (inbox par rmt_pid)"
        "rmt_nbrs (inbox par rmt_pid) ! index = GET_VERTEX_ID (src (state_g t0))"
    for par0 t0 rmt_pid index
  proof -
    from init assms(1) have vc: "vertex_count (subgraph par0) \<noteq> 0"
      by (auto simp: bfs_init_def split: if_splits)
    with init have pt: "processor_type par0 \<noteq> PROCESSOR_MAX"
      by (auto simp: bfs_init_def)
    from init bfs_init_eq[OF vc pt, of t0]
    have par: "par = par0\<lparr>inbox := init_inbox par0 {0..<engine_partition_count t0},
                          algo_state := Some (init_state t0 par0)\<rparr>"
      by simp
    let ?t = "engine_report_not_finished t"
    have k': "\<forall>n. n \<le> kernel_threads ?t n"
      using k by (simp add: engine_report_not_finished_def)
    have pt': "processor_type par \<noteq> PROCESSOR_MAX" and st: "algo_state par = Some (init_state t0 par0)"
      and pid: "par_id par = par_id par0"
      using pt by (simp_all add: par)
    have vis: "visited (init_state t0 par0) (par_id par) = {GET_VERTEX_ID (src (state_g t0))}"
      using s by (simp add: init_state_def pid)
    let ?par' = "gather_result par (visited (init_state t0 par0) (par_id par))
                   {0..<engine_partition_count ?t}"
    have g: "bfs_gather par ?t = Inr ?par'"
      using pt' st k' by (rule bfs_gather_eq)
    have "index \<in> pull_values (inbox ?par' rmt_pid)"
      using r by (simp add: gather_result_def gathered_def vis bitmap_is_set_def
                    engine_report_not_finished_def)
    with g show ?thesis
      by (auto simp: bitmap_is_set_def)
  qed
  with step show ?thesis by blast
qed

theorem bfs_first_superstep_witness:
  "vertex_count (subgraph ex_par0_init) \<noteq> 0 \<and> engine_superstep ex_totem1 = 1 \<and>
   bfs ex_par0_init ex_totem1 = Inr (ex_par0_init, ex_totem1\<lparr>engine_finished := False\<rparr>)"
proof -
  have h: "vertex_count (subgraph ex_par0_init) \<noteq> 0" "engine_superstep ex_totem1 = 1"
    by (simp_all add: ex_par0_init_def ex_par0_def ex_totem1_def)
  from bfs_first_superstep[OF h] show ?thesis
    by (intro conjI h) (simp add: engine_report_not_finished_def)
qed




text \<open>
  C10. For a partition without vertices the init, step, aggregate and finalize
  callbacks return at once: the partition and the context are returned as they were, so
  no state is allocated, nothing is written, and "not finished" is not reported, in
  superstep 1 as in any other.
\<close>

theorem empty_partition_callbacks:
  assumes "vertex_count (subgraph par) = 0"
  shows "bfs_init par t = Inr par \<and> bfs par t = Inr (par, t) \<and>
         bfs_aggregate par t = Inr t \<and> bfs_finalize par = Inr par"
  using assms by (simp add: bfs_init_def bfs_def bfs_aggregate_def bfs_finalize_def)

theorem empty_partition_callbacks_witness:
  "vertex_count (subgraph ex_par_empty) = 0 \<and> engine_superstep ex_totem1 = 1 \<and>
   engine_finished ex_totem1 \<and> algo_state ex_par_empty = None \<and>
   bfs_init ex_par_empty ex_totem1 = Inr ex_par_empty \<and>
   bfs ex_par_empty ex_totem1 = Inr (ex_par_empty, ex_totem1) \<and>
   bfs_aggregate ex_par_empty ex_totem1 = Inr ex_totem1 \<and>
   bfs_finalize ex_par_empty = Inr ex_par_empty"
proof -
  have h: "vertex_count (subgraph ex_par_empty) = 0"
    by (simp add: ex_par_empty_def)
  have e: "engine_superstep ex_totem1 = 1" "engine_finished ex_totem1"
    "algo_state ex_par_empty = None"
    by (simp_all add: ex_totem1_def ex_totem_def ex_par_empty_def ex_par0_def)
  from empty_partition_callbacks[OF h, of ex_totem1] show ?thesis
    by (intro conjI h e) simp_all
qed

end
